theory Spec2Isabelle
  imports Main "HOL-Library.AList"
begin

section \<open>Python values\<close>

text \<open>
  The decorator \<^verbatim>\<open>cache_response\<close> of \<^verbatim>\<open>main.py\<close> handles three kinds of Python values.

  \<^item> The call arguments \<^verbatim>\<open>*args, **kwargs\<close>, of which one is the identifier. They are
    modelled as the scalar values \<open>ident\<close>: \<^verbatim>\<open>None\<close>, a \<^verbatim>\<open>bool\<close>, an \<^verbatim>\<open>int\<close>
    (unbounded) or a \<^verbatim>\<open>str\<close>.
  \<^item> What \<^verbatim>\<open>cache.get\<close> returns: \<^verbatim>\<open>None\<close> or a \<^verbatim>\<open>str\<close>, modelled as \<open>string option\<close>.
  \<^item> What the wrapped function returns and what \<^verbatim>\<open>json.loads\<close> builds: \<open>pyval\<close>, the
    JSON-shaped values (\<^verbatim>\<open>None\<close>, \<^verbatim>\<open>bool\<close>, \<^verbatim>\<open>int\<close>, \<^verbatim>\<open>str\<close>, \<^verbatim>\<open>list\<close>, \<^verbatim>\<open>dict\<close> with
    \<^verbatim>\<open>str\<close> keys in insertion order) and \<open>PObject\<close>, an instance of a class that
    \<^verbatim>\<open>json\<close> cannot encode, named by its type name.

  A Python \<^verbatim>\<open>str\<close> is a \<open>string\<close> whose characters are the code points 0 to 255.
  Floats are not modelled.
\<close>

datatype ident = INone | IBool bool | IInt int | IStr string

datatype pyval =
    PNone
  | PBool bool
  | PInt int
  | PStr string
  | PList "pyval list"
  | PDict "(string \<times> pyval) list"
  | PObject string

text \<open>
  Exceptions. \<open>NotModelled\<close> marks a run that leaves the modelled fragment of Python (a
  float literal or a code point above 255 met by \<^verbatim>\<open>json.loads\<close>); \<open>RecursionError\<close> is the
  outcome of the decoder when its fuel is used up.
\<close>

datatype exc =
    IndexError
  | TypeError
  | JSONDecodeError
  | RecursionError
  | NotModelled
  | HTTPException int string
  | BackendError string

type_synonym 'a result = "exc + 'a"

section \<open>Truthiness and \<^verbatim>\<open>str()\<close>\<close>

fun truthy :: "ident \<Rightarrow> bool" where
  "truthy INone = False"
| "truthy (IBool b) = b"
| "truthy (IInt i) = (i \<noteq> 0)"
| "truthy (IStr s) = (s \<noteq> [])"

definition digit_char :: "nat \<Rightarrow> char" where
  "digit_char d = char_of (48 + d)"

function digits :: "nat \<Rightarrow> string" where
  "digits n = (if n < 10 then [digit_char n] else digits (n div 10) @ [digit_char (n mod 10)])"
  by pat_completeness auto
termination
  by (relation "measure id") auto

declare digits.simps [simp del]

definition str_int :: "int \<Rightarrow> string" where
  "str_int i = (if i < 0 then CHR ''-'' # digits (nat (- i)) else digits (nat i))"

fun py_str :: "ident \<Rightarrow> string" where
  "py_str INone = ''None''"
| "py_str (IBool b) = (if b then ''True'' else ''False'')"
| "py_str (IInt i) = str_int i"
| "py_str (IStr s) = s"

section \<open>The wire format: \<^verbatim>\<open>json.dumps\<close>\<close>

text \<open>
  \<^verbatim>\<open>json.dumps(response)\<close> with the default options: separators \<^verbatim>\<open>", "\<close> and \<^verbatim>\<open>": "\<close>,
  \<^verbatim>\<open>ensure_ascii=True\<close>. A string is written between double quotes; a backslash, a double
  quote and the five control characters with a short form are escaped with a backslash,
  every other character outside \<^verbatim>\<open>' '..'~'\<close> as \<^verbatim>\<open>\u00xx\<close> in lower-case hexadecimal.
  An object that is not JSON-shaped raises \<^verbatim>\<open>TypeError\<close> naming its type.
\<close>

abbreviation DQ :: char where "DQ \<equiv> CHR 0x22"
abbreviation BSL :: char where "BSL \<equiv> CHR 0x5C"

definition hex_char :: "nat \<Rightarrow> char" where
  "hex_char d = (if d < 10 then char_of (48 + d) else char_of (87 + d))"

definition escape_char :: "char \<Rightarrow> string" where
  "escape_char c =
     (if c = BSL then [BSL, BSL]
      else if c = DQ then [BSL, DQ]
      else if c = CHR 0x08 then [BSL, CHR ''b'']
      else if c = CHR 0x0C then [BSL, CHR ''f'']
      else if c = CHR 0x0A then [BSL, CHR ''n'']
      else if c = CHR 0x0D then [BSL, CHR ''r'']
      else if c = CHR 0x09 then [BSL, CHR ''t'']
      else if 32 \<le> (of_char c :: nat) \<and> (of_char c :: nat) \<le> 126 then [c]
      else [BSL, CHR ''u'', CHR ''0'', CHR ''0'',
            hex_char ((of_char c :: nat) div 16), hex_char ((of_char c :: nat) mod 16)])"

definition encode_basestring_ascii :: "string \<Rightarrow> string" where
  "encode_basestring_ascii s = DQ # concat (map escape_char s) @ [DQ]"

datatype enc_error = NotSerializable string

definition enc_error_str :: "enc_error \<Rightarrow> string" where
  "enc_error_str e = (case e of NotSerializable tn \<Rightarrow>
     ''Object of type '' @ tn @ '' is not JSON serializable'')"

fun encode :: "pyval \<Rightarrow> enc_error + string"
  and encode_items :: "pyval list \<Rightarrow> enc_error + string"
  and encode_pairs :: "(string \<times> pyval) list \<Rightarrow> enc_error + string"
where
  "encode PNone = Inr ''null''"
| "encode (PBool b) = Inr (if b then ''true'' else ''false'')"
| "encode (PInt i) = Inr (str_int i)"
| "encode (PStr s) = Inr (encode_basestring_ascii s)"
| "encode (PList vs) =
     (if vs = [] then Inr ''[]''
      else case encode_items vs of Inl e \<Rightarrow> Inl e | Inr s \<Rightarrow> Inr (''['' @ s @ '']''))"
| "encode (PDict kvs) =
     (if kvs = [] then Inr ''{}''
      else case encode_pairs kvs of Inl e \<Rightarrow> Inl e | Inr s \<Rightarrow> Inr (''{'' @ s @ ''}''))"
| "encode (PObject tn) = Inl (NotSerializable tn)"
| "encode_items [] = Inr []"
| "encode_items (v # vs) =
     (case encode v of Inl e \<Rightarrow> Inl e
      | Inr s \<Rightarrow>
         (case encode_items vs of Inl e \<Rightarrow> Inl e
          | Inr t \<Rightarrow> Inr (if vs = [] then s else s @ '', '' @ t)))"
| "encode_pairs [] = Inr []"
| "encode_pairs (kv # kvs) =
     (case encode (snd kv) of Inl e \<Rightarrow> Inl e
      | Inr s \<Rightarrow>
         (case encode_pairs kvs of Inl e \<Rightarrow> Inl e
          | Inr t \<Rightarrow>
             Inr (encode_basestring_ascii (fst kv) @ '': '' @ s @
                  (if kvs = [] then [] else '', '' @ t))))"

definition json_dumps :: "pyval \<Rightarrow> enc_error + string" where
  "json_dumps obj = encode obj"

section \<open>The wire format: \<^verbatim>\<open>json.loads\<close>\<close>

text \<open>
  \<^verbatim>\<open>json.loads(cached_value)\<close> with the default options (\<^verbatim>\<open>strict=True\<close>, no hooks). The
  decoder walks the text from left to right; the model passes the text still to be read
  where the Python passes an index. Every syntax error is a \<^verbatim>\<open>JSONDecodeError\<close>.
\<close>

definition is_ws :: "char \<Rightarrow> bool" where
  "is_ws c = (c = CHR '' '' \<or> c = CHR 0x09 \<or> c = CHR 0x0A \<or> c = CHR 0x0D)"

definition skip_ws :: "string \<Rightarrow> string" where
  "skip_ws s = dropWhile is_ws s"

definition is_digit :: "char \<Rightarrow> bool" where
  "is_digit c = (48 \<le> (of_char c :: nat) \<and> (of_char c :: nat) \<le> 57)"

definition digit_val :: "char \<Rightarrow> nat" where
  "digit_val c = of_char c - 48"

definition num_of :: "string \<Rightarrow> nat" where
  "num_of ds = foldl (\<lambda>a c. 10 * a + digit_val c) 0 ds"

definition hex_val :: "char \<Rightarrow> nat option" where
  "hex_val c =
     (let n = (of_char c :: nat) in
      if 48 \<le> n \<and> n \<le> 57 then Some (n - 48)
      else if 97 \<le> n \<and> n \<le> 102 then Some (n - 87)
      else if 65 \<le> n \<and> n \<le> 70 then Some (n - 55)
      else None)"

text \<open>The four hexadecimal digits after \<^verbatim>\<open>\u\<close>.\<close>

definition decode_uXXXX :: "string \<Rightarrow> nat result" where
  "decode_uXXXX s =
     (case s of
        a # b # c # d # _ \<Rightarrow>
          (case (hex_val a, hex_val b, hex_val c, hex_val d) of
             (Some x, Some y, Some z, Some w) \<Rightarrow> Inr (((x * 16 + y) * 16 + z) * 16 + w)
           | _ \<Rightarrow> Inl JSONDecodeError)
      | _ \<Rightarrow> Inl JSONDecodeError)"

definition backslash :: "char \<Rightarrow> char option" where
  "backslash e =
     (if e = DQ then Some DQ
      else if e = BSL then Some BSL
      else if e = CHR ''/'' then Some (CHR ''/'')
      else if e = CHR ''b'' then Some (CHR 0x08)
      else if e = CHR ''f'' then Some (CHR 0x0C)
      else if e = CHR ''n'' then Some (CHR 0x0A)
      else if e = CHR ''r'' then Some (CHR 0x0D)
      else if e = CHR ''t'' then Some (CHR 0x09)
      else None)"

text \<open>
  \<open>scanstring s\<close> reads a string literal whose opening quote has been consumed and
  returns its content with the text after the closing quote.
\<close>

function scanstring :: "string \<Rightarrow> (string \<times> string) result" where
  "scanstring [] = Inl JSONDecodeError"
| "scanstring (c # cs) =
     (if c = DQ then Inr ([], cs)
      else if c = BSL then
        (case cs of
           [] \<Rightarrow> Inl JSONDecodeError
         | e # cs' \<Rightarrow>
             if e = CHR ''u'' then
               (case decode_uXXXX cs' of
                  Inl err \<Rightarrow> Inl err
                | Inr uni \<Rightarrow>
                    if uni < 256 then
                      (case scanstring (drop 4 cs') of
                         Inl err \<Rightarrow> Inl err
                       | Inr (str, r) \<Rightarrow> Inr (char_of uni # str, r))
                    else Inl NotModelled)
             else
               (case backslash e of
                  None \<Rightarrow> Inl JSONDecodeError
                | Some ch \<Rightarrow>
                    (case scanstring cs' of
                       Inl err \<Rightarrow> Inl err
                     | Inr (str, r) \<Rightarrow> Inr (ch # str, r))))
      else if (of_char c :: nat) < 32 then Inl JSONDecodeError
      else
        (case scanstring cs of
           Inl err \<Rightarrow> Inl err
         | Inr (str, r) \<Rightarrow> Inr (c # str, r)))"
  by pat_completeness auto
termination
  by (relation "measure length") auto

declare scanstring.simps [simp del]

text \<open>
  The number pattern \<^verbatim>\<open>(-?(?:0|[1-9]\d*))(\.\d+)?([eE][-+]?\d+)?\<close>: the integer group,
  and whether a fraction or an exponent follows it (then the literal is a float).
\<close>

definition match_integer :: "string \<Rightarrow> (bool \<times> string \<times> string) option" where
  "match_integer s =
     (let neg = (case s of [] \<Rightarrow> False | c # _ \<Rightarrow> c = CHR ''-'');
          s1 = (if neg then tl s else s)
      in case s1 of
           [] \<Rightarrow> None
         | c # cs \<Rightarrow>
             if c = CHR ''0'' then Some (neg, [c], cs)
             else if is_digit c then Some (neg, takeWhile is_digit s1, dropWhile is_digit s1)
             else None)"

definition has_frac :: "string \<Rightarrow> bool" where
  "has_frac r = (case r of c # d # _ \<Rightarrow> c = CHR ''.'' \<and> is_digit d | _ \<Rightarrow> False)"

definition has_exp :: "string \<Rightarrow> bool" where
  "has_exp r =
     (case r of
        [] \<Rightarrow> False
      | c # cs \<Rightarrow>
          (c = CHR ''e'' \<or> c = CHR ''E'') \<and>
          (case cs of
             [] \<Rightarrow> False
           | d # ds \<Rightarrow>
               is_digit d \<or>
               ((d = CHR ''+'' \<or> d = CHR ''-'') \<and> (case ds of [] \<Rightarrow> False | x # _ \<Rightarrow> is_digit x))))"

definition scan_number :: "string \<Rightarrow> (pyval \<times> string) result" where
  "scan_number s =
     (case match_integer s of
        Some (neg, ds, r) \<Rightarrow>
          if has_frac r \<or> has_exp r then Inl NotModelled
          else Inr (PInt (if neg then - int (num_of ds) else int (num_of ds)), r)
      | None \<Rightarrow>
          if take 3 s = ''NaN'' \<or> take 8 s = ''Infinity'' \<or> take 9 s = ''-Infinity''
          then Inl NotModelled
          else Inl JSONDecodeError)"

text \<open>\<^verbatim>\<open>dict(pairs)\<close>: a repeated key keeps its first position and takes the last value.\<close>

definition dict_of_pairs :: "(string \<times> pyval) list \<Rightarrow> (string \<times> pyval) list" where
  "dict_of_pairs ps = fold (\<lambda>kv d. AList.update (fst kv) (snd kv) d) ps []"

text \<open>
  \<open>scan_once\<close> reads one value; \<open>parse_array_items\<close> is the loop of \<^verbatim>\<open>JSONArray\<close>, entered
  at the first value of a non-empty array; \<open>parse_object_items\<close> is the loop of
  \<^verbatim>\<open>JSONObject\<close>, entered after the opening quote of a key. The first argument is fuel,
  one unit for each call.
\<close>

fun scan_once :: "nat \<Rightarrow> string \<Rightarrow> (pyval \<times> string) result"
  and parse_array_items :: "nat \<Rightarrow> string \<Rightarrow> (pyval list \<times> string) result"
  and parse_object_items :: "nat \<Rightarrow> string \<Rightarrow> ((string \<times> pyval) list \<times> string) result"
where
  "scan_once 0 s = Inl RecursionError"
| "scan_once (Suc n) s =
     (case s of
        [] \<Rightarrow> Inl JSONDecodeError
      | c # cs \<Rightarrow>
          if c = DQ then
            (case scanstring cs of
               Inl e \<Rightarrow> Inl e
             | Inr (str, r) \<Rightarrow> Inr (PStr str, r))
          else if c = CHR ''{'' then
            (case skip_ws cs of
               [] \<Rightarrow> Inl JSONDecodeError
             | d # r \<Rightarrow>
                 if d = CHR ''}'' then Inr (PDict [], r)
                 else if d = DQ then
                   (case parse_object_items n r of
                      Inl e \<Rightarrow> Inl e
                    | Inr (pairs, r') \<Rightarrow> Inr (PDict (dict_of_pairs pairs), r'))
                 else Inl JSONDecodeError)
          else if c = CHR ''['' then
            (case skip_ws cs of
               [] \<Rightarrow> Inl JSONDecodeError
             | d # r \<Rightarrow>
                 if d = CHR '']'' then Inr (PList [], r)
                 else
                   (case parse_array_items n (d # r) of
                      Inl e \<Rightarrow> Inl e
                    | Inr (vals, r') \<Rightarrow> Inr (PList vals, r')))
          else if take 4 s = ''null'' then Inr (PNone, drop 4 s)
          else if take 4 s = ''true'' then Inr (PBool True, drop 4 s)
          else if take 5 s = ''false'' then Inr (PBool False, drop 5 s)
          else scan_number s)"
| "parse_array_items 0 s = Inl RecursionError"
| "parse_array_items (Suc n) s =
     (case scan_once n s of
        Inl e \<Rightarrow> Inl e
      | Inr (v, r) \<Rightarrow>
          (case skip_ws r of
             [] \<Rightarrow> Inl JSONDecodeError
           | c # r' \<Rightarrow>
               if c = CHR '']'' then Inr ([v], r')
               else if c = CHR '','' then
                 (case parse_array_items n (skip_ws r') of
                    Inl e \<Rightarrow> Inl e
                  | Inr (vs, r'') \<Rightarrow> Inr (v # vs, r''))
               else Inl JSONDecodeError))"
| "parse_object_items 0 s = Inl RecursionError"
| "parse_object_items (Suc n) s =
     (case scanstring s of
        Inl e \<Rightarrow> Inl e
      | Inr (key, r) \<Rightarrow>
          (case skip_ws r of
             [] \<Rightarrow> Inl JSONDecodeError
           | c # r1 \<Rightarrow>
               if c \<noteq> CHR '':'' then Inl JSONDecodeError
               else
                 (case scan_once n (skip_ws r1) of
                    Inl e \<Rightarrow> Inl e
                  | Inr (v, r2) \<Rightarrow>
                      (case skip_ws r2 of
                         [] \<Rightarrow> Inl JSONDecodeError
                       | d # r3 \<Rightarrow>
                           if d = CHR ''}'' then Inr ([(key, v)], r3)
                           else if d \<noteq> CHR '','' then Inl JSONDecodeError
                           else
                             (case skip_ws r3 of
                                [] \<Rightarrow> Inl JSONDecodeError
                              | q # r4 \<Rightarrow>
                                  if q \<noteq> DQ then Inl JSONDecodeError
                                  else
                                    (case parse_object_items n r4 of
                                       Inl e \<Rightarrow> Inl e
                                     | Inr (kvs, r5) \<Rightarrow> Inr ((key, v) # kvs, r5)))))))"

text \<open>
  \<^verbatim>\<open>JSONDecoder.decode\<close>: leading whitespace, one value, trailing whitespace, then the end
  of the text. The fuel is twice the length of the text and two more, which no text uses up
  (lemma \<open>json_loads_fuel\<close> below).
\<close>

definition json_loads :: "string \<Rightarrow> pyval result" where
  "json_loads s =
     (case scan_once (2 * length s + 2) (skip_ws s) of
        Inl e \<Rightarrow> Inl e
      | Inr (v, r) \<Rightarrow> if skip_ws r = [] then Inr v else Inl JSONDecodeError)"

section \<open>The cache client\<close>

text \<open>
  The decorator reaches the remote store through \<^verbatim>\<open>cache.get(key)\<close> and
  \<^verbatim>\<open>cache.set(key, value, ttl=ttl)\<close> of the client it builds at every call. The client and
  the store behind it are not part of \<^verbatim>\<open>main.py\<close>: they are a parameter of the model, over
  any type \<open>'s\<close> of store states. \<open>Inl msg\<close> is an exception raised by the client, \<open>msg\<close>
  being its \<^verbatim>\<open>str()\<close>. A read does not change the store, and a write that raises leaves
  it as it was.
\<close>

record 's adapter =
  cache_get :: "'s \<Rightarrow> string \<Rightarrow> string + string option"
  cache_set :: "'s \<Rightarrow> string \<Rightarrow> string \<Rightarrow> int \<Rightarrow> string + 's"

section \<open>The decorator\<close>

type_synonym kwargs = "(string \<times> ident) list"
type_synonym producer = "ident list \<Rightarrow> kwargs \<Rightarrow> pyval result"

text \<open>What a call did, in order: the effects the claims speak about.\<close>

datatype event =
    CacheGet string
  | ProducerCall "ident list" kwargs
  | CacheSet string string int

record 's outcome =
  result :: "pyval result"
  store :: 's
  events :: "event list"

definition producer_calls :: "event list \<Rightarrow> nat" where
  "producer_calls evs =
     length (filter (\<lambda>ev. case ev of ProducerCall _ _ \<Rightarrow> True | _ \<Rightarrow> False) evs)"

definition cache_writes :: "event list \<Rightarrow> nat" where
  "cache_writes evs =
     length (filter (\<lambda>ev. case ev of CacheSet _ _ _ \<Rightarrow> True | _ \<Rightarrow> False) evs)"

text \<open>\<^verbatim>\<open>args[0]\<close>: indexing the empty tuple raises \<^verbatim>\<open>IndexError\<close>.\<close>

definition first_positional :: "ident list \<Rightarrow> ident result" where
  "first_positional args = (case args of [] \<Rightarrow> Inl IndexError | a # _ \<Rightarrow> Inr a)"

text \<open>
  Line 32, \<^verbatim>\<open>user_id = kwargs.get('user_id') or args[0]\<close>: \<^verbatim>\<open>kwargs.get\<close> gives \<^verbatim>\<open>None\<close>
  for a missing key, and \<^verbatim>\<open>x or y\<close> evaluates \<^verbatim>\<open>y\<close> only when \<^verbatim>\<open>x\<close> is falsy.
\<close>

definition get_user_id :: "ident list \<Rightarrow> kwargs \<Rightarrow> ident result" where
  "get_user_id args kwargs =
     (let kw = (case map_of kwargs ''user_id'' of None \<Rightarrow> INone | Some v \<Rightarrow> v)
      in if truthy kw then Inr kw else first_positional args)"

text \<open>Line 33, \<^verbatim>\<open>cache_key = f"{namespace}:user:{user_id}"\<close>.\<close>

definition key_for :: "string \<Rightarrow> ident \<Rightarrow> string" where
  "key_for namespace user_id = namespace @ '':user:'' @ py_str user_id"

text \<open>
  Lines 46 to 60, the path taken after a miss: the wrapped function is called; its
  exception passes through; its result is serialised and written inside \<^verbatim>\<open>try\<close>, and
  any exception there becomes \<^verbatim>\<open>HTTPException(status_code=500)\<close>.
\<close>

definition fetch_and_store ::
  "'s adapter \<Rightarrow> int \<Rightarrow> producer \<Rightarrow> ident list \<Rightarrow> kwargs \<Rightarrow> string \<Rightarrow> 's \<Rightarrow> 's outcome" where
  "fetch_and_store cache ttl func args kwargs cache_key s =
     (case func args kwargs of
        Inl e \<Rightarrow>
          \<lparr>result = Inl e, store = s,
           events = [CacheGet cache_key, ProducerCall args kwargs]\<rparr>
      | Inr response \<Rightarrow>
          (case json_dumps response of
             Inl e \<Rightarrow>
               \<lparr>result = Inl (HTTPException 500 (''Error caching data: '' @ enc_error_str e)),
                store = s,
                events = [CacheGet cache_key, ProducerCall args kwargs]\<rparr>
           | Inr payload \<Rightarrow>
               (case cache_set cache s cache_key payload ttl of
                  Inl msg \<Rightarrow>
                    \<lparr>result = Inl (HTTPException 500 (''Error caching data: '' @ msg)),
                     store = s,
                     events = [CacheGet cache_key, ProducerCall args kwargs,
                               CacheSet cache_key payload ttl]\<rparr>
                | Inr s' \<Rightarrow>
                    \<lparr>result = Inr response, store = s',
                     events = [CacheGet cache_key, ProducerCall args kwargs,
                               CacheSet cache_key payload ttl]\<rparr>)))"

text \<open>
  Lines 30 to 60, \<^verbatim>\<open>wrapper(*args, **kwargs)\<close> of \<^verbatim>\<open>cache_response(ttl, namespace)(func)\<close>.
  \<^verbatim>\<open>if cached_value:\<close> holds for a non-empty string only. An exception of \<^verbatim>\<open>cache.get\<close>
  or of \<^verbatim>\<open>json.loads\<close> is not caught. The \<^verbatim>\<open>print\<close> calls are left out.
\<close>

definition wrapper ::
  "'s adapter \<Rightarrow> int \<Rightarrow> string \<Rightarrow> producer \<Rightarrow> ident list \<Rightarrow> kwargs \<Rightarrow> 's \<Rightarrow> 's outcome" where
  "wrapper cache ttl namespace func args kwargs s =
     (case get_user_id args kwargs of
        Inl e \<Rightarrow> \<lparr>result = Inl e, store = s, events = []\<rparr>
      | Inr user_id \<Rightarrow>
          (let cache_key = key_for namespace user_id
           in case cache_get cache s cache_key of
                Inl msg \<Rightarrow>
                  \<lparr>result = Inl (BackendError msg), store = s, events = [CacheGet cache_key]\<rparr>
              | Inr cached_value \<Rightarrow>
                  (case cached_value of
                     None \<Rightarrow> fetch_and_store cache ttl func args kwargs cache_key s
                   | Some text \<Rightarrow>
                       if text \<noteq> [] then
                         \<lparr>result = json_loads text, store = s, events = [CacheGet cache_key]\<rparr>
                       else fetch_and_store cache ttl func args kwargs cache_key s)))"

section \<open>The endpoint and a store for examples\<close>

text \<open>
  \<^verbatim>\<open>users_db\<close> and \<^verbatim>\<open>get_user_details(user_id)\<close>, lines 71 to 90, as the module runs under
  \<^verbatim>\<open>python main.py\<close> (where line 97 has bound \<^verbatim>\<open>asyncio\<close>). The function takes one
  parameter, by position or by keyword; any other way of calling it is a \<^verbatim>\<open>TypeError\<close>.
  \<^verbatim>\<open>users_db.get\<close> compares keys as Python does: \<^verbatim>\<open>True == 1\<close> and \<^verbatim>\<open>False == 0\<close>.
\<close>

definition users_db :: "(int \<times> pyval) list" where
  "users_db =
     [(1, PDict [(''id'', PInt 1), (''name'', PStr ''Alice''),
                 (''email'', PStr ''alice@example.com''), (''age'', PInt 25)]),
      (2, PDict [(''id'', PInt 2), (''name'', PStr ''Bob''),
                 (''email'', PStr ''bob@example.com''), (''age'', PInt 30)]),
      (3, PDict [(''id'', PInt 3), (''name'', PStr ''Charlie''),
                 (''email'', PStr ''charlie@example.com''), (''age'', PInt 22)])]"

definition bind_user_id :: "ident list \<Rightarrow> kwargs \<Rightarrow> ident result" where
  "bind_user_id args kwargs =
     (case args of
        [] \<Rightarrow>
          (case kwargs of
             [kv] \<Rightarrow> if fst kv = ''user_id'' then Inr (snd kv) else Inl TypeError
           | _ \<Rightarrow> Inl TypeError)
      | [a] \<Rightarrow> if kwargs = [] then Inr a else Inl TypeError
      | _ \<Rightarrow> Inl TypeError)"

definition db_key :: "ident \<Rightarrow> int option" where
  "db_key v =
     (case v of
        IInt i \<Rightarrow> Some i
      | IBool b \<Rightarrow> Some (if b then 1 else 0)
      | _ \<Rightarrow> None)"

definition get_user_details :: producer where
  "get_user_details args kwargs =
     (case bind_user_id args kwargs of
        Inl e \<Rightarrow> Inl e
      | Inr user_id \<Rightarrow>
          (case db_key user_id of
             None \<Rightarrow> Inl (HTTPException 404 ''User not found'')
           | Some i \<Rightarrow>
               (case map_of users_db i of
                  None \<Rightarrow> Inl (HTTPException 404 ''User not found'')
                | Some user \<Rightarrow> Inr user)))"

text \<open>
  Two clients over an in-memory table of entries, for the examples: one that works and
  one whose writes fail. Neither lets an entry expire.
\<close>

definition mem_cache :: "(string \<times> string) list adapter" where
  "mem_cache =
     \<lparr>cache_get = (\<lambda>s k. Inr (map_of s k)),
      cache_set = (\<lambda>s k v ttl. Inr (AList.update k v s))\<rparr>"

definition write_down_cache :: "(string \<times> string) list adapter" where
  "write_down_cache =
     \<lparr>cache_get = (\<lambda>s k. Inr (map_of s k)),
      cache_set = (\<lambda>s k v ttl. Inl ''Connection refused'')\<rparr>"

section \<open>Well-formed values and notions for the proofs\<close>

text \<open>
  A Python \<^verbatim>\<open>dict\<close> holds each key once. \<open>distinct_keys v\<close> says so of the association
  lists that stand for the dictionaries inside \<open>v\<close>.
\<close>

fun distinct_keys :: "pyval \<Rightarrow> bool"
  and distinct_keys_items :: "pyval list \<Rightarrow> bool"
  and distinct_keys_pairs :: "(string \<times> pyval) list \<Rightarrow> bool"
where
  "distinct_keys (PList vs) = distinct_keys_items vs"
| "distinct_keys (PDict kvs) = (distinct (map fst kvs) \<and> distinct_keys_pairs kvs)"
| "distinct_keys v = True"
| "distinct_keys_items [] = True"
| "distinct_keys_items (v # vs) = (distinct_keys v \<and> distinct_keys_items vs)"
| "distinct_keys_pairs [] = True"
| "distinct_keys_pairs (kv # kvs) = (distinct_keys (snd kv) \<and> distinct_keys_pairs kvs)"

text \<open>
  \<open>delim rest\<close>: the text after a value is empty or starts with a comma or a closing
  bracket, as it does wherever \<^verbatim>\<open>json.dumps\<close> has written a value. \<open>value_start c\<close>: a
  character that an encoded value can start with.
\<close>

definition delim :: "string \<Rightarrow> bool" where
  "delim rest = (case rest of [] \<Rightarrow> True | c # _ \<Rightarrow> c = CHR '','' \<or> c = CHR '']'' \<or> c = CHR ''}'')"

definition value_start :: "char \<Rightarrow> bool" where
  "value_start c = (c = DQ \<or> c = CHR ''{'' \<or> c = CHR ''['' \<or> c = CHR ''n'' \<or> c = CHR ''t''
     \<or> c = CHR ''f'' \<or> c = CHR ''-'' \<or> is_digit c)"

section \<open>Decoding what \<^verbatim>\<open>json.dumps\<close> wrote\<close>

subsection \<open>Integers\<close>

lemma of_char_digit_char: "d < 10 \<Longrightarrow> (of_char (digit_char d) :: nat) = 48 + d"
  by (simp add: digit_char_def)

lemma is_digit_digit_char: "d < 10 \<Longrightarrow> is_digit (digit_char d)"
  by (simp add: is_digit_def of_char_digit_char)

lemma digit_val_digit_char: "d < 10 \<Longrightarrow> digit_val (digit_char d) = d"
  by (simp add: digit_val_def of_char_digit_char)

lemma digit_char_eq_zero: "d < 10 \<Longrightarrow> digit_char d = CHR ''0'' \<longleftrightarrow> d = 0"
proof -
  assume d: "d < 10"
  have "digit_char d = CHR ''0'' \<longleftrightarrow> (of_char (digit_char d) :: nat) = of_char (CHR ''0'')"
    by (simp only: of_char_eq_iff)
  also have "\<dots> \<longleftrightarrow> d = 0"
    using d by (simp add: of_char_digit_char)
  finally show ?thesis .
qed

lemma digits_not_Nil: "digits n \<noteq> []"
  by (subst digits.simps) simp

lemma digits_all_digit: "\<forall>c \<in> set (digits n). is_digit c"
proof (induction n rule: digits.induct)
  case (1 n)
  show ?case
  proof (cases "n < 10")
    case True
    then show ?thesis by (subst digits.simps) (simp add: is_digit_digit_char)
  next
    case False
    with 1 show ?thesis by (subst digits.simps) (simp add: is_digit_digit_char)
  qed
qed

lemma num_of_snoc: "num_of (ds @ [c]) = 10 * num_of ds + digit_val c"
  by (simp add: num_of_def)

lemma num_of_digits: "num_of (digits n) = n"
proof (induction n rule: digits.induct)
  case (1 n)
  show ?case
  proof (cases "n < 10")
    case True
    then show ?thesis by (subst digits.simps) (simp add: num_of_def digit_val_digit_char)
  next
    case False
    with 1 have "num_of (digits (n div 10)) = n div 10" by simp
    with False show ?thesis
      by (subst digits.simps) (simp add: num_of_snoc digit_val_digit_char)
  qed
qed

lemma hd_digits_zero: "hd (digits n) = CHR ''0'' \<longleftrightarrow> n = 0"
proof (induction n rule: digits.induct)
  case (1 n)
  show ?case
  proof (cases "n < 10")
    case True
    then show ?thesis by (subst digits.simps) (simp add: digit_char_eq_zero)
  next
    case False
    with 1 have "hd (digits (n div 10)) = CHR ''0'' \<longleftrightarrow> n div 10 = 0" by simp
    with False show ?thesis
      by (subst digits.simps) (simp add: digits_not_Nil)
  qed
qed

lemma delim_not_digit: "delim rest \<Longrightarrow> takeWhile is_digit rest = [] \<and> dropWhile is_digit rest = rest"
  by (auto simp: delim_def is_digit_def split: list.splits)

lemma delim_no_float: "delim rest \<Longrightarrow> \<not> has_frac rest \<and> \<not> has_exp rest"
  by (auto simp: delim_def has_frac_def has_exp_def split: list.splits)

lemma takeWhile_digits: "delim rest \<Longrightarrow> takeWhile is_digit (digits n @ rest) = digits n"
  using digits_all_digit [of n] by (simp add: delim_not_digit)

lemma dropWhile_digits: "delim rest \<Longrightarrow> dropWhile is_digit (digits n @ rest) = rest"
  using digits_all_digit [of n] by (simp add: delim_not_digit)

lemma match_integer_digits:
  assumes "delim rest"
  shows "match_integer (digits n @ rest) = Some (False, digits n, rest)"
proof (cases "digits n")
  case Nil
  then show ?thesis using digits_not_Nil by simp
next
  case (Cons c cs)
  have dig: "is_digit c" using digits_all_digit [of n] Cons by simp
  then have nm: "c \<noteq> CHR ''-''" by (auto simp: is_digit_def)
  show ?thesis
  proof (cases "n = 0")
    case True
    then have "digits n = [CHR ''0'']"
      using digit_char_eq_zero [of 0] by (subst digits.simps) simp
    then show ?thesis by (simp add: match_integer_def)
  next
    case False
    then have "c \<noteq> CHR ''0''" using hd_digits_zero [of n] Cons by simp
    then show ?thesis
      using takeWhile_digits [OF assms, of n] dropWhile_digits [OF assms, of n] dig nm Cons
      by (simp add: match_integer_def)
  qed
qed

lemma match_integer_neg_digits:
  assumes "delim rest" and "n \<noteq> 0"
  shows "match_integer (CHR ''-'' # digits n @ rest) = Some (True, digits n, rest)"
proof (cases "digits n")
  case Nil
  then show ?thesis using digits_not_Nil by simp
next
  case (Cons c cs)
  have dig: "is_digit c" using digits_all_digit [of n] Cons by simp
  have "c \<noteq> CHR ''0''" using hd_digits_zero [of n] Cons assms(2) by simp
  then show ?thesis
    using takeWhile_digits [OF assms(1), of n] dropWhile_digits [OF assms(1), of n] dig Cons
    by (simp add: match_integer_def)
qed

lemma scan_number_str_int:
  assumes "delim rest"
  shows "scan_number (str_int i @ rest) = Inr (PInt i, rest)"
proof (cases "i < 0")
  case True
  then have "nat (- i) \<noteq> 0" by simp
  from match_integer_neg_digits [OF assms this] True delim_no_float [OF assms]
  show ?thesis by (simp add: scan_number_def str_int_def num_of_digits)
next
  case False
  from match_integer_digits [OF assms, of "nat i"] False delim_no_float [OF assms]
  show ?thesis by (simp add: scan_number_def str_int_def num_of_digits)
qed

lemma str_int_head: "\<exists>c cs. str_int i = c # cs \<and> (c = CHR ''-'' \<or> is_digit c)"
proof (cases "digits (nat i)")
  case Nil
  then show ?thesis using digits_not_Nil by simp
next
  case (Cons c cs)
  then show ?thesis using digits_all_digit [of "nat i"] by (auto simp: str_int_def)
qed

subsection \<open>Strings\<close>

lemma hex_val_hex_char: "d < 16 \<Longrightarrow> hex_val (hex_char d) = Some d"
  by (simp add: hex_val_def hex_char_def Let_def)

lemma hex_val_zero: "hex_val (CHR ''0'') = Some 0"
  by (simp add: hex_val_def)

lemma decode_uXXXX_escape:
  assumes "n < 256"
  shows "decode_uXXXX (CHR ''0'' # CHR ''0'' # hex_char (n div 16) # hex_char (n mod 16) # t) = Inr n"
proof -
  from assms have "n div 16 < 16" by simp
  then have a: "hex_val (hex_char (n div 16)) = Some (n div 16)" by (rule hex_val_hex_char)
  have b: "hex_val (hex_char (n mod 16)) = Some (n mod 16)" by (rule hex_val_hex_char) simp
  show ?thesis by (simp add: decode_uXXXX_def hex_val_zero a b)
qed

lemma scanstring_quote: "scanstring (DQ # rest) = Inr ([], rest)"
  by (subst scanstring.simps) simp

lemma scanstring_plain:
  assumes "c \<noteq> DQ" and "c \<noteq> BSL" and "\<not> (of_char c :: nat) < 32"
  shows "scanstring (c # t) =
         (case scanstring t of Inl e \<Rightarrow> Inl e | Inr (str, r) \<Rightarrow> Inr (c # str, r))"
  using assms by (subst scanstring.simps) simp

lemma scanstring_short:
  assumes "backslash e = Some c" and "e \<noteq> CHR ''u''"
  shows "scanstring (BSL # e # t) =
         (case scanstring t of Inl e \<Rightarrow> Inl e | Inr (str, r) \<Rightarrow> Inr (c # str, r))"
  using assms by (subst scanstring.simps) simp

lemma scanstring_unicode:
  "scanstring (BSL # CHR ''u'' # CHR ''0'' # CHR ''0'' #
       hex_char ((of_char c :: nat) div 16) # hex_char ((of_char c :: nat) mod 16) # t) =
   (case scanstring t of Inl e \<Rightarrow> Inl e | Inr (str, r) \<Rightarrow> Inr (c # str, r))"
  by (subst scanstring.simps) (simp add: decode_uXXXX_escape split: sum.splits)

lemma scanstring_escape_char:
  "scanstring (escape_char c @ t) =
   (case scanstring t of Inl e \<Rightarrow> Inl e | Inr (str, r) \<Rightarrow> Inr (c # str, r))"
proof -
  consider (bsl) "c = BSL" | (dq) "c = DQ" | (b) "c = CHR 0x08" | (f) "c = CHR 0x0C"
    | (n) "c = CHR 0x0A" | (r) "c = CHR 0x0D" | (t) "c = CHR 0x09"
    | (plain) "c \<noteq> BSL" "c \<noteq> DQ" "32 \<le> (of_char c :: nat)" "(of_char c :: nat) \<le> 126"
    | (uni) "c \<noteq> BSL" "c \<noteq> DQ" "c \<noteq> CHR 0x08" "c \<noteq> CHR 0x0C" "c \<noteq> CHR 0x0A" "c \<noteq> CHR 0x0D"
        "c \<noteq> CHR 0x09" "\<not> (32 \<le> (of_char c :: nat) \<and> (of_char c :: nat) \<le> 126)"
    by blast
  then show ?thesis
  proof cases
    case bsl
    then show ?thesis by (simp add: escape_char_def scanstring_short backslash_def split: sum.splits)
  next
    case dq
    then show ?thesis by (simp add: escape_char_def scanstring_short backslash_def split: sum.splits)
  next
    case b
    then show ?thesis by (simp add: escape_char_def scanstring_short backslash_def split: sum.splits)
  next
    case f
    then show ?thesis by (simp add: escape_char_def scanstring_short backslash_def split: sum.splits)
  next
    case n
    then show ?thesis by (simp add: escape_char_def scanstring_short backslash_def split: sum.splits)
  next
    case r
    then show ?thesis by (simp add: escape_char_def scanstring_short backslash_def split: sum.splits)
  next
    case t
    then show ?thesis by (simp add: escape_char_def scanstring_short backslash_def split: sum.splits)
  next
    case plain
    then have e: "escape_char c = [c]" by (auto simp: escape_char_def)
    from plain show ?thesis unfolding e by (simp add: scanstring_plain)
  next
    case uni
    then have e: "escape_char c = [BSL, CHR ''u'', CHR ''0'', CHR ''0'',
            hex_char ((of_char c :: nat) div 16), hex_char ((of_char c :: nat) mod 16)]"
      by (simp add: escape_char_def)
    show ?thesis unfolding e using scanstring_unicode [of c t] by simp
  qed
qed

lemma scanstring_escaped:
  "scanstring (concat (map escape_char s) @ DQ # rest) = Inr (s, rest)"
  by (induction s) (simp_all add: scanstring_quote scanstring_escape_char split: sum.splits)

lemma scan_once_string:
  "scan_once (Suc n) (encode_basestring_ascii s @ rest) = Inr (PStr s, rest)"
  by (simp add: encode_basestring_ascii_def scanstring_escaped)

subsection \<open>Values\<close>

lemma value_start_not_ws: "value_start c \<Longrightarrow> \<not> is_ws c"
  by (auto simp: value_start_def is_ws_def is_digit_def)

lemma value_start_not_close: "value_start c \<Longrightarrow> c \<noteq> CHR '']'' \<and> c \<noteq> CHR ''}''"
  by (auto simp: value_start_def is_digit_def)

lemma skip_ws_Cons: "\<not> is_ws c \<Longrightarrow> skip_ws (c # t) = c # t"
  by (simp add: skip_ws_def)

lemma skip_ws_space: "\<not> is_ws c \<Longrightarrow> skip_ws (CHR '' '' # c # t) = c # t"
  by (simp add: skip_ws_def is_ws_def)

lemma skip_ws_Nil: "skip_ws [] = []"
  by (simp add: skip_ws_def)

lemma not_ws_punct:
  "\<not> is_ws (CHR '']'')" "\<not> is_ws (CHR ''}'')" "\<not> is_ws (CHR '','')" "\<not> is_ws (CHR '':'')"
  "\<not> is_ws DQ"
  by (simp_all add: is_ws_def)

lemma encode_head: "encode v = Inr s \<Longrightarrow> \<exists>c t. s = c # t \<and> value_start c"
proof (cases v)
  case (PInt i)
  assume "encode v = Inr s"
  with PInt str_int_head [of i] show ?thesis by (auto simp: value_start_def)
qed (auto simp: value_start_def encode_basestring_ascii_def split: if_splits sum.splits)

lemma encode_items_head:
  "encode_items vs = Inr s \<Longrightarrow> vs \<noteq> [] \<Longrightarrow> \<exists>c t. s = c # t \<and> value_start c"
proof (cases vs)
  case Nil
  assume "vs \<noteq> []"
  with Nil show ?thesis by simp
next
  case (Cons v vs')
  assume "encode_items vs = Inr s"
  with Cons obtain sv t where sv: "encode v = Inr sv" and s: "s = sv \<or> s = sv @ '', '' @ t"
    by (auto split: sum.splits if_splits)
  from encode_head [OF sv] s show ?thesis by auto
qed

lemma scan_once_null: "scan_once (Suc n) (''null'' @ rest) = Inr (PNone, rest)"
  by simp

lemma scan_once_true: "scan_once (Suc n) (''true'' @ rest) = Inr (PBool True, rest)"
  by simp

lemma scan_once_false: "scan_once (Suc n) (''false'' @ rest) = Inr (PBool False, rest)"
  by simp

lemma scan_once_int:
  assumes "delim rest"
  shows "scan_once (Suc n) (str_int i @ rest) = Inr (PInt i, rest)"
proof -
  from str_int_head [of i] obtain c cs where s: "str_int i = c # cs"
    and c: "c = CHR ''-'' \<or> is_digit c" by blast
  from c have "c \<noteq> DQ" "c \<noteq> CHR ''{''" "c \<noteq> CHR ''[''" "c \<noteq> CHR ''n''" "c \<noteq> CHR ''t''"
    "c \<noteq> CHR ''f''"
    by (auto simp: is_digit_def)
  then have "scan_once (Suc n) (c # cs @ rest) = scan_number (c # cs @ rest)"
    by simp
  with scan_number_str_int [OF assms, of i] s show ?thesis by simp
qed

lemma parse_array_items_last:
  assumes "scan_once k s = Inr (v, CHR '']'' # rest)"
  shows "parse_array_items (Suc k) s = Inr ([v], rest)"
  using assms by (simp add: skip_ws_Cons not_ws_punct)

lemma parse_array_items_more:
  assumes "scan_once k s = Inr (v, CHR '','' # CHR '' '' # c # t)"
    and "\<not> is_ws c"
    and "parse_array_items k (c # t) = Inr (vs, r)"
  shows "parse_array_items (Suc k) s = Inr (v # vs, r)"
  using assms by (simp add: skip_ws_Cons skip_ws_space not_ws_punct)

lemma parse_object_items_last:
  assumes "scanstring s = Inr (key, CHR '':'' # CHR '' '' # c # t)"
    and "\<not> is_ws c"
    and "scan_once k (c # t) = Inr (v, CHR ''}'' # rest)"
  shows "parse_object_items (Suc k) s = Inr ([(key, v)], rest)"
  using assms by (simp add: skip_ws_Cons skip_ws_space not_ws_punct)

lemma parse_object_items_more:
  assumes "scanstring s = Inr (key, CHR '':'' # CHR '' '' # c # t)"
    and "\<not> is_ws c"
    and "scan_once k (c # t) = Inr (v, CHR '','' # CHR '' '' # DQ # u)"
    and "parse_object_items k u = Inr (kvs, r)"
  shows "parse_object_items (Suc k) s = Inr ((key, v) # kvs, r)"
  using assms by (simp add: skip_ws_Cons skip_ws_space not_ws_punct)

lemma update_fresh: "k \<notin> fst ` set d \<Longrightarrow> AList.update k v d = d @ [(k, v)]"
  by (induction d) auto

lemma fold_update_distinct:
  "distinct (map fst (d @ ps)) \<Longrightarrow>
   fold (\<lambda>kv d. AList.update (fst kv) (snd kv) d) ps d = d @ ps"
proof (induction ps arbitrary: d)
  case Nil
  then show ?case by simp
next
  case (Cons p ps)
  from Cons.prems have f: "fst p \<notin> fst ` set d" by auto
  from Cons.prems have "distinct (map fst ((d @ [p]) @ ps))" by simp
  from Cons.IH [OF this] show ?case by (simp add: update_fresh [OF f])
qed

lemma dict_of_pairs_distinct: "distinct (map fst ps) \<Longrightarrow> dict_of_pairs ps = ps"
  using fold_update_distinct [of "[]" ps] by (simp add: dict_of_pairs_def)

lemma delim_punct:
  "delim []" "delim (CHR '']'' # r)" "delim (CHR ''}'' # r)" "delim (CHR '','' # r)"
  by (simp_all add: delim_def)

lemma roundtrip_aux:
  "\<forall>s n rest. encode v = Inr s \<longrightarrow> distinct_keys v \<longrightarrow> 2 * length s \<le> n \<longrightarrow> delim rest \<longrightarrow>
     scan_once n (s @ rest) = Inr (v, rest)"
  "\<forall>s n rest. encode_items vs = Inr s \<longrightarrow> vs \<noteq> [] \<longrightarrow> distinct_keys_items vs \<longrightarrow>
     2 * length s + 1 \<le> n \<longrightarrow>
     parse_array_items n (s @ CHR '']'' # rest) = Inr (vs, rest)"
  "\<forall>s n rest. encode_pairs kvs = Inr s \<longrightarrow> kvs \<noteq> [] \<longrightarrow> distinct_keys_pairs kvs \<longrightarrow>
     2 * length s + 1 \<le> n \<longrightarrow>
     (\<exists>s'. s = DQ # s' \<and> parse_object_items n (s' @ CHR ''}'' # rest) = Inr (kvs, rest))"
proof (induction v and vs and kvs rule: encode_encode_items_encode_pairs.induct)
  case 1
  show ?case
  proof (intro allI impI)
    fix s :: string and n :: nat and rest :: string
    assume "encode PNone = Inr s" and "2 * length s \<le> n"
    then obtain m where "n = Suc m" and "s = ''null''" by (cases n) auto
    then show "scan_once n (s @ rest) = Inr (PNone, rest)" by (simp only: scan_once_null)
  qed
next
  case (2 b)
  show ?case
  proof (intro allI impI)
    fix s :: string and n :: nat and rest :: string
    assume "encode (PBool b) = Inr s" and "2 * length s \<le> n"
    then obtain m where n: "n = Suc m" and s: "s = (if b then ''true'' else ''false'')"
      by (cases n; cases b) auto
    show "scan_once n (s @ rest) = Inr (PBool b, rest)"
    proof (cases b)
      case True
      with n s show ?thesis by (simp only: scan_once_true if_True)
    next
      case False
      with n s show ?thesis by (simp only: scan_once_false if_False)
    qed
  qed
next
  case (3 i)
  show ?case
  proof (intro allI impI)
    fix s :: string and n :: nat and rest :: string
    assume e: "encode (PInt i) = Inr s" and "2 * length s \<le> n" and d: "delim rest"
    from e have s: "s = str_int i" by simp
    with str_int_head [of i] have "s \<noteq> []" by auto
    with \<open>2 * length s \<le> n\<close> obtain m where n: "n = Suc m" by (cases n) auto
    show "scan_once n (s @ rest) = Inr (PInt i, rest)"
      unfolding n s by (rule scan_once_int [OF d])
  qed
next
  case (4 str)
  show ?case
  proof (intro allI impI)
    fix s :: string and n :: nat and rest :: string
    assume e: "encode (PStr str) = Inr s" and "2 * length s \<le> n"
    from e have s: "s = encode_basestring_ascii str" by simp
    then have "s \<noteq> []" by (simp add: encode_basestring_ascii_def)
    with \<open>2 * length s \<le> n\<close> obtain m where n: "n = Suc m" by (cases n) auto
    show "scan_once n (s @ rest) = Inr (PStr str, rest)"
      unfolding n s by (rule scan_once_string)
  qed
next
  case (5 vs)
  show ?case
  proof (intro allI impI)
    fix s :: string and n :: nat and rest :: string
    assume e: "encode (PList vs) = Inr s" and dk: "distinct_keys (PList vs)"
      and f: "2 * length s \<le> n" and d: "delim rest"
    show "scan_once n (s @ rest) = Inr (PList vs, rest)"
    proof (cases "vs = []")
      case True
      with e have s: "s = ''[]''" by simp
      with f obtain m where n: "n = Suc m" by (cases n) auto
      show ?thesis unfolding n s True by (simp add: skip_ws_Cons not_ws_punct)
    next
      case False
      with e obtain t where t: "encode_items vs = Inr t" and s: "s = CHR ''['' # t @ '']''"
        by (auto split: sum.splits)
      from s f obtain m where n: "n = Suc m" and m: "2 * length t + 1 \<le> m"
        by (cases n) auto
      from 5 [OF False] t False dk m
      have p: "parse_array_items m (t @ CHR '']'' # rest) = Inr (vs, rest)" by simp
      from encode_items_head [OF t False] obtain c t' where c: "t = c # t'" "value_start c"
        by blast
      then have "skip_ws (t @ CHR '']'' # rest) = c # t' @ CHR '']'' # rest"
        by (simp add: skip_ws_Cons value_start_not_ws)
      with p c show ?thesis unfolding n s
        by (simp add: value_start_not_close)
    qed
  qed
next
  case (6 kvs)
  show ?case
  proof (intro allI impI)
    fix s :: string and n :: nat and rest :: string
    assume e: "encode (PDict kvs) = Inr s" and dk: "distinct_keys (PDict kvs)"
      and f: "2 * length s \<le> n" and d: "delim rest"
    show "scan_once n (s @ rest) = Inr (PDict kvs, rest)"
    proof (cases "kvs = []")
      case True
      with e have s: "s = ''{}''" by simp
      with f obtain m where n: "n = Suc m" by (cases n) auto
      show ?thesis unfolding n s True by (simp add: skip_ws_Cons not_ws_punct)
    next
      case False
      with e obtain t where t: "encode_pairs kvs = Inr t" and s: "s = CHR ''{'' # t @ ''}''"
        by (auto split: sum.splits)
      from s f obtain m where n: "n = Suc m" and m: "2 * length t + 1 \<le> m"
        by (cases n) auto
      from 6 [OF False] t False dk m
      obtain t' where t': "t = DQ # t'"
        and p: "parse_object_items m (t' @ CHR ''}'' # rest) = Inr (kvs, rest)"
        by auto
      from dk have "dict_of_pairs kvs = kvs" by (simp add: dict_of_pairs_distinct)
      with p show ?thesis unfolding n s t'
        by (simp add: skip_ws_Cons not_ws_punct)
    qed
  qed
next
  case (7 tn)
  show ?case by simp
next
  case 8
  show ?case by simp
next
  case (9 v vs)
  show ?case
  proof (intro allI impI)
    fix s :: string and n :: nat and rest :: string
    assume e: "encode_items (v # vs) = Inr s" and dk: "distinct_keys_items (v # vs)"
      and f: "2 * length s + 1 \<le> n"
    from e obtain sv t where sv: "encode v = Inr sv" and t: "encode_items vs = Inr t"
      and s: "s = (if vs = [] then sv else sv @ '', '' @ t)"
      by (auto split: sum.splits)
    from f obtain k where n: "n = Suc k" and k: "2 * length s \<le> k" by (cases n) auto
    from dk have dv: "distinct_keys v" and dvs: "distinct_keys_items vs" by simp_all
    show "parse_array_items n (s @ CHR '']'' # rest) = Inr (v # vs, rest)"
    proof (cases "vs = []")
      case True
      with s k have "2 * length sv \<le> k" by simp
      with "9.IH"(1) sv dv have "scan_once k (sv @ CHR '']'' # rest) = Inr (v, CHR '']'' # rest)"
        by (simp add: delim_punct)
      from parse_array_items_last [OF this] True s show ?thesis unfolding n by simp
    next
      case False
      with s have s': "s = sv @ '', '' @ t" by simp
      with k have "2 * length sv \<le> k" and kt: "2 * length t + 1 \<le> k" by simp_all
      with "9.IH"(1) sv dv
      have a: "scan_once k (sv @ CHR '','' # CHR '' '' # t @ CHR '']'' # rest) =
               Inr (v, CHR '','' # CHR '' '' # t @ CHR '']'' # rest)"
        by (simp add: delim_punct)
      from "9.IH"(2) [OF sv] t False dvs kt
      have b: "parse_array_items k (t @ CHR '']'' # rest) = Inr (vs, rest)" by simp
      from encode_items_head [OF t False] obtain c t' where c: "t = c # t'" "value_start c"
        by blast
      from a b c have
        "parse_array_items (Suc k) (sv @ CHR '','' # CHR '' '' # c # t' @ CHR '']'' # rest) =
         Inr (v # vs, rest)"
        by (intro parse_array_items_more [where c = c]) (simp_all add: value_start_not_ws)
      with c show ?thesis unfolding n s' by simp
    qed
  qed
next
  case 10
  show ?case by simp
next
  case (11 kv kvs)
  show ?case
  proof (intro allI impI)
    fix s :: string and n :: nat and rest :: string
    assume e: "encode_pairs (kv # kvs) = Inr s" and dk: "distinct_keys_pairs (kv # kvs)"
      and f: "2 * length s + 1 \<le> n"
    from e obtain sv t where sv: "encode (snd kv) = Inr sv" and t: "encode_pairs kvs = Inr t"
      and s: "s = encode_basestring_ascii (fst kv) @ '': '' @ sv @
                  (if kvs = [] then [] else '', '' @ t)"
      by (auto split: sum.splits)
    from f obtain k where n: "n = Suc k" and k: "2 * length s \<le> k" by (cases n) auto
    from dk have dv: "distinct_keys (snd kv)" and dvs: "distinct_keys_pairs kvs" by simp_all
    from encode_head [OF sv] obtain c sv' where c: "sv = c # sv'" "value_start c" by blast
    define key where "key = concat (map escape_char (fst kv))"
    have ek: "encode_basestring_ascii (fst kv) = DQ # key @ [DQ]"
      by (simp add: encode_basestring_ascii_def key_def)
    have ss: "\<And>u. scanstring (key @ DQ # u) = Inr (fst kv, u)"
      unfolding key_def by (rule scanstring_escaped)
    from s k have ksv: "2 * length sv \<le> k" by simp
    show "\<exists>s'. s = DQ # s' \<and>
            parse_object_items n (s' @ CHR ''}'' # rest) = Inr (kv # kvs, rest)"
    proof (cases "kvs = []")
      case True
      with s ek have s': "s = DQ # key @ DQ # CHR '':'' # CHR '' '' # sv" by simp
      from "11.IH"(1) sv dv ksv
      have a: "scan_once k (sv @ CHR ''}'' # rest) = Inr (snd kv, CHR ''}'' # rest)"
        by (simp add: delim_punct)
      have "parse_object_items (Suc k) (key @ DQ # CHR '':'' # CHR '' '' # c # sv' @ CHR ''}'' # rest)
            = Inr ([(fst kv, snd kv)], rest)"
        using a c by (intro parse_object_items_last [where c = c and t = "sv' @ CHR ''}'' # rest"])
          (simp_all add: ss value_start_not_ws)
      with c True show ?thesis unfolding n s' by simp
    next
      case False
      with s ek have s': "s = DQ # key @ DQ # CHR '':'' # CHR '' '' # sv @ CHR '','' # CHR '' '' # t"
        by simp
      with k have kt: "2 * length t + 1 \<le> k" by simp
      from "11.IH"(2) [OF sv] t False dvs kt
      obtain t' where t': "t = DQ # t'"
        and b: "parse_object_items k (t' @ CHR ''}'' # rest) = Inr (kvs, rest)"
        by auto
      from "11.IH"(1) sv dv ksv
      have a: "scan_once k (sv @ CHR '','' # CHR '' '' # DQ # t' @ CHR ''}'' # rest) =
               Inr (snd kv, CHR '','' # CHR '' '' # DQ # t' @ CHR ''}'' # rest)"
        by (simp add: delim_punct)
      have "parse_object_items (Suc k)
              (key @ DQ # CHR '':'' # CHR '' '' # c # sv' @ CHR '','' # CHR '' '' # DQ # t' @ CHR ''}'' # rest)
            = Inr ((fst kv, snd kv) # kvs, rest)"
        using a b c
        by (intro parse_object_items_more [where c = c
              and t = "sv' @ CHR '','' # CHR '' '' # DQ # t' @ CHR ''}'' # rest"
              and u = "t' @ CHR ''}'' # rest"])
          (simp_all add: ss value_start_not_ws)
      with c show ?thesis unfolding n s' t' by simp
    qed
  qed
qed

lemma encode_roundtrip:
  assumes e: "encode v = Inr s" and "distinct_keys v"
  shows "json_loads s = Inr v"
proof -
  from encode_head [OF e] obtain c t where c: "s = c # t" "value_start c" by blast
  then have w: "skip_ws s = s" by (simp add: skip_ws_Cons value_start_not_ws)
  have "2 * length s \<le> 2 * length s + 2" by simp
  from roundtrip_aux(1) [of v, rule_format, OF e assms(2) this delim_punct(1)]
  have h: "scan_once (2 * length s + 2) s = Inr (v, [])"
    by (simp only: append_Nil2)
  show ?thesis
    unfolding json_loads_def w h by (simp add: skip_ws_Nil)
qed

lemma encode_not_Nil: "encode v = Inr s \<Longrightarrow> s \<noteq> []"
  using encode_head by blast

text \<open>
  Claim C6. For every value \<open>x\<close> that \<^verbatim>\<open>json.dumps\<close> encodes, \<^verbatim>\<open>json.loads\<close> of the
  encoding is \<open>x\<close>: \<^verbatim>\<open>None\<close>, booleans, integers, strings, lists and dictionaries with
  string keys, nested to any depth, among them the records of \<^verbatim>\<open>users_db\<close>.
\<close>

theorem json_round_trip:
  assumes "json_dumps x = Inr wire" and "distinct_keys x"
  shows "json_loads wire = Inr x"
  using assms by (simp add: json_dumps_def encode_roundtrip)

theorem json_round_trip_witness:
  "json_dumps (PDict [(''id'', PInt 1), (''name'', PStr ''Alice''),
        (''email'', PStr ''alice@example.com''), (''age'', PInt 25)]) =
     Inr (''{'' @ [DQ] @ ''id'' @ [DQ] @ '': 1, '' @ [DQ] @ ''name'' @ [DQ] @ '': '' @ [DQ] @ ''Alice'' @ [DQ]
          @ '', '' @ [DQ] @ ''email'' @ [DQ] @ '': '' @ [DQ] @ ''alice@example.com'' @ [DQ]
          @ '', '' @ [DQ] @ ''age'' @ [DQ] @ '': 25}'')
   \<and> distinct_keys (PDict [(''id'', PInt 1), (''name'', PStr ''Alice''),
        (''email'', PStr ''alice@example.com''), (''age'', PInt 25)])
   \<and> json_loads (''{'' @ [DQ] @ ''id'' @ [DQ] @ '': 1, '' @ [DQ] @ ''name'' @ [DQ] @ '': '' @ [DQ] @ ''Alice'' @ [DQ]
          @ '', '' @ [DQ] @ ''email'' @ [DQ] @ '': '' @ [DQ] @ ''alice@example.com'' @ [DQ]
          @ '', '' @ [DQ] @ ''age'' @ [DQ] @ '': 25}'') =
     Inr (PDict [(''id'', PInt 1), (''name'', PStr ''Alice''),
        (''email'', PStr ''alice@example.com''), (''age'', PInt 25)])"
proof -
  have h1: "json_dumps (PDict [(''id'', PInt 1), (''name'', PStr ''Alice''),
        (''email'', PStr ''alice@example.com''), (''age'', PInt 25)]) =
     Inr (''{'' @ [DQ] @ ''id'' @ [DQ] @ '': 1, '' @ [DQ] @ ''name'' @ [DQ] @ '': '' @ [DQ] @ ''Alice'' @ [DQ]
          @ '', '' @ [DQ] @ ''email'' @ [DQ] @ '': '' @ [DQ] @ ''alice@example.com'' @ [DQ]
          @ '', '' @ [DQ] @ ''age'' @ [DQ] @ '': 25}'')"
    by code_simp
  have h2: "distinct_keys (PDict [(''id'', PInt 1), (''name'', PStr ''Alice''),
        (''email'', PStr ''alice@example.com''), (''age'', PInt 25)])"
    by simp
  show ?thesis using json_round_trip [OF h1 h2] h1 h2 by blast
qed

subsection \<open>The decoder's fuel\<close>

text \<open>
  Every successful step of the decoder consumes text, so the fuel that \<open>json_loads\<close>
  supplies is never used up: \<open>RecursionError\<close> is not an outcome of \<open>json_loads\<close>.
\<close>

lemma skip_ws_length: "length (skip_ws s) \<le> length s"
  by (simp add: skip_ws_def length_dropWhile_le)

lemma skip_ws_Cons_length: "skip_ws s = c # r \<Longrightarrow> length r < length s"
  using skip_ws_length [of s] by simp

lemma scanstring_consumes: "scanstring s = Inr (str, r) \<Longrightarrow> length r < length s"
proof (induction s arbitrary: str r rule: scanstring.induct)
  case 1
  then show ?case by (simp add: scanstring.simps)
next
  case (2 c cs)
  show ?case
  proof (cases "c = DQ")
    case True
    with "2.prems" show ?thesis by (simp add: scanstring.simps)
  next
    case nq: False
    show ?thesis
    proof (cases "c = BSL")
      case True
      show ?thesis
      proof (cases cs)
        case Nil
        with "2.prems" nq True show ?thesis by (simp add: scanstring.simps)
      next
        case (Cons e cs')
        show ?thesis
        proof (cases "e = CHR ''u''")
          case u: True
          from "2.prems" nq True Cons u obtain uni str' where
            d: "decode_uXXXX cs' = Inr uni" and lt: "uni < 256"
            and s: "scanstring (drop 4 cs') = Inr (str', r)"
            by (subst (asm) scanstring.simps) (auto split: sum.splits if_splits)
          from "2.IH"(1) [OF nq True Cons u d lt s] have "length r < length (drop 4 cs')" .
          with Cons show ?thesis by simp
        next
          case nu: False
          from "2.prems" nq True Cons nu obtain ch str' where
            b: "backslash e = Some ch" and s: "scanstring cs' = Inr (str', r)"
            by (subst (asm) scanstring.simps) (auto split: sum.splits option.splits)
          from "2.IH"(2) [OF nq True Cons nu b s] Cons show ?thesis by simp
        qed
      qed
    next
      case nb: False
      from "2.prems" nq nb obtain str' where c32: "\<not> (of_char c :: nat) < 32"
        and s: "scanstring cs = Inr (str', r)"
        by (subst (asm) scanstring.simps) (auto split: sum.splits if_splits)
      from "2.IH"(3) [OF nq nb c32 s] show ?thesis by simp
    qed
  qed
qed

lemma decode_uXXXX_error: "decode_uXXXX s = Inl e \<Longrightarrow> e = JSONDecodeError"
  by (auto simp: decode_uXXXX_def split: list.splits option.splits)

lemma scanstring_error: "scanstring s = Inl e \<Longrightarrow> e = JSONDecodeError \<or> e = NotModelled"
proof (induction s rule: scanstring.induct)
  case 1
  then show ?case by (simp add: scanstring.simps)
next
  case (2 c cs)
  show ?case
  proof (cases "c = DQ")
    case True
    with "2.prems" show ?thesis by (simp add: scanstring.simps)
  next
    case nq: False
    show ?thesis
    proof (cases "c = BSL")
      case True
      show ?thesis
      proof (cases cs)
        case Nil
        with "2.prems" nq True show ?thesis by (simp add: scanstring.simps)
      next
        case (Cons e' cs')
        show ?thesis
        proof (cases "e' = CHR ''u''")
          case u: True
          show ?thesis
          proof (cases "decode_uXXXX cs'")
            case (Inl err)
            with "2.prems" nq True Cons u decode_uXXXX_error [OF Inl] show ?thesis
              by (simp add: scanstring.simps)
          next
            case (Inr uni)
            show ?thesis
            proof (cases "uni < 256")
              case lt: True
              from "2.prems" nq True Cons u Inr lt
              have "scanstring (drop 4 cs') = Inl e"
                by (subst (asm) scanstring.simps) (auto split: sum.splits)
              from "2.IH"(1) [OF nq True Cons u Inr lt this] show ?thesis .
            next
              case False
              with "2.prems" nq True Cons u Inr show ?thesis
                by (simp add: scanstring.simps)
            qed
          qed
        next
          case nu: False
          show ?thesis
          proof (cases "backslash e'")
            case None
            with "2.prems" nq True Cons nu show ?thesis by (simp add: scanstring.simps)
          next
            case (Some ch)
            with "2.prems" nq True Cons nu have "scanstring cs' = Inl e"
              by (subst (asm) scanstring.simps) (auto split: sum.splits)
            from "2.IH"(2) [OF nq True Cons nu Some this] show ?thesis .
          qed
        qed
      qed
    next
      case nb: False
      show ?thesis
      proof (cases "(of_char c :: nat) < 32")
        case True
        with "2.prems" nq nb show ?thesis by (simp add: scanstring.simps)
      next
        case c32: False
        with "2.prems" nq nb have "scanstring cs = Inl e"
          by (subst (asm) scanstring.simps) (auto split: sum.splits)
        from "2.IH"(3) [OF nq nb c32 this] show ?thesis .
      qed
    qed
  qed
qed

lemma scanstring_no_recursion_error: "scanstring s \<noteq> Inl RecursionError"
  using scanstring_error [of s RecursionError] by auto

lemma match_integer_consumes: "match_integer s = Some (neg, ds, r) \<Longrightarrow> length r < length s"
proof -
  assume a: "match_integer s = Some (neg, ds, r)"
  have d: "length (dropWhile is_digit t) \<le> length t" for t
    by (rule length_dropWhile_le)
  show ?thesis
  proof (cases s)
    case Nil
    with a show ?thesis by (simp add: match_integer_def)
  next
    case (Cons c cs)
    show ?thesis
    proof (cases "c = CHR ''-''")
      case True
      with a Cons d [of "tl cs"] show ?thesis
        by (cases cs) (auto simp: match_integer_def Let_def is_digit_def split: if_splits)
    next
      case False
      with a Cons d [of cs] show ?thesis
        by (auto simp: match_integer_def Let_def split: if_splits)
    qed
  qed
qed

lemma scan_number_consumes: "scan_number s = Inr (v, r) \<Longrightarrow> length r < length s"
  using match_integer_consumes [of s]
  by (auto simp: scan_number_def split: option.splits if_splits)

lemma scan_number_no_recursion_error: "scan_number s \<noteq> Inl RecursionError"
  by (auto simp: scan_number_def split: option.splits if_splits)


lemma drop_keyword:
  assumes "take k s = w" and "length w = k" and "0 < k"
  shows "length (drop k s) < length s"
proof -
  from assms(1,2) have "min (length s) k = k" by (metis length_take)
  with assms(3) show ?thesis by simp
qed

lemma scan_once_consumes_step:
  assumes IHa: "\<And>t vs r. parse_array_items n t = Inr (vs, r) \<Longrightarrow> length r < length t"
    and IHo: "\<And>t kvs r. parse_object_items n t = Inr (kvs, r) \<Longrightarrow> length r < length t"
    and run: "scan_once (Suc n) s = Inr (v, r)"
  shows "length r < length s"
proof (cases s)
  case Nil
  with run show ?thesis by simp
next
  case (Cons c cs)
  consider (str) "c = DQ" | (obj) "c \<noteq> DQ" "c = CHR ''{''"
    | (arr) "c \<noteq> DQ" "c \<noteq> CHR ''{''" "c = CHR ''[''"
    | (other) "c \<noteq> DQ" "c \<noteq> CHR ''{''" "c \<noteq> CHR ''[''"
    by blast
  then show ?thesis
  proof cases
    case str
    with run Cons obtain x where "scanstring cs = Inr (x, r)"
      by (auto split: sum.splits)
    from scanstring_consumes [OF this] Cons show ?thesis by simp
  next
    case obj
    show ?thesis
    proof (cases "skip_ws cs")
      case Nil
      with run Cons obj show ?thesis by simp
    next
      case sk: (Cons d r0)
      from skip_ws_Cons_length [OF sk] have l: "length r0 < length cs" .
      show ?thesis
      proof (cases "d = CHR ''}''")
        case True
        with run Cons obj sk l show ?thesis by simp
      next
        case False
        with run Cons obj sk obtain ps where "parse_object_items n r0 = Inr (ps, r)"
          by (auto split: sum.splits if_splits)
        from IHo [OF this] l Cons show ?thesis by simp
      qed
    qed
  next
    case arr
    show ?thesis
    proof (cases "skip_ws cs")
      case Nil
      with run Cons arr show ?thesis by simp
    next
      case sk: (Cons d r0)
      from skip_ws_Cons_length [OF sk] have l: "length r0 < length cs" .
      show ?thesis
      proof (cases "d = CHR '']''")
        case True
        with run Cons arr sk l show ?thesis by simp
      next
        case False
        with run Cons arr sk obtain vs where "parse_array_items n (d # r0) = Inr (vs, r)"
          by (auto split: sum.splits)
        from IHa [OF this] l Cons show ?thesis by simp
      qed
    qed
  next
    case other
    with run Cons have
      "(take 4 s = ''null'' \<and> r = drop 4 s) \<or> (take 4 s = ''true'' \<and> r = drop 4 s)
       \<or> (take 5 s = ''false'' \<and> r = drop 5 s) \<or> scan_number s = Inr (v, r)"
      by (auto split: if_splits)
    then show ?thesis
      using drop_keyword [of 4 s "''null''"] drop_keyword [of 4 s "''true''"]
        drop_keyword [of 5 s "''false''"] scan_number_consumes [of s v r]
      by auto
  qed
qed

lemma parse_array_items_consumes_step:
  assumes IHs: "\<And>t v r. scan_once n t = Inr (v, r) \<Longrightarrow> length r < length t"
    and IHa: "\<And>t vs r. parse_array_items n t = Inr (vs, r) \<Longrightarrow> length r < length t"
    and run: "parse_array_items (Suc n) s = Inr (vs, r)"
  shows "length r < length s"
proof -
  from run obtain v r1 where a: "scan_once n s = Inr (v, r1)"
    by (auto split: sum.splits)
  from IHs [OF a] have l1: "length r1 < length s" .
  from run a obtain c r2 where sk: "skip_ws r1 = c # r2"
    by (auto split: sum.splits list.splits)
  from skip_ws_Cons_length [OF sk] have l2: "length r2 < length r1" .
  show ?thesis
  proof (cases "c = CHR '']''")
    case True
    with run a sk l1 l2 show ?thesis by simp
  next
    case False
    with run a sk obtain vs' where "parse_array_items n (skip_ws r2) = Inr (vs', r)"
      by (auto split: sum.splits if_splits)
    from IHa [OF this] skip_ws_length [of r2] l1 l2 show ?thesis by simp
  qed
qed

lemma parse_object_items_consumes_step:
  assumes IHs: "\<And>t v r. scan_once n t = Inr (v, r) \<Longrightarrow> length r < length t"
    and IHo: "\<And>t kvs r. parse_object_items n t = Inr (kvs, r) \<Longrightarrow> length r < length t"
    and run: "parse_object_items (Suc n) s = Inr (kvs, r)"
  shows "length r < length s"
proof -
  from run obtain key r0 where a: "scanstring s = Inr (key, r0)"
    by (auto split: sum.splits)
  from scanstring_consumes [OF a] have l0: "length r0 < length s" .
  from run a obtain c r1 where sk: "skip_ws r0 = c # r1"
    by (auto split: sum.splits list.splits)
  from skip_ws_Cons_length [OF sk] have l1: "length r1 < length r0" .
  from run a sk obtain v r2 where b: "scan_once n (skip_ws r1) = Inr (v, r2)"
    by (auto split: sum.splits if_splits)
  from IHs [OF b] skip_ws_length [of r1] have l2: "length r2 < length r1" by simp
  from run a sk b obtain d r3 where sk2: "skip_ws r2 = d # r3"
    by (auto split: sum.splits list.splits if_splits)
  from skip_ws_Cons_length [OF sk2] have l3: "length r3 < length r2" .
  show ?thesis
  proof (cases "d = CHR ''}''")
    case True
    with run a sk b sk2 l0 l1 l2 l3 show ?thesis by (auto split: if_splits)
  next
    case False
    with run a sk b sk2 obtain q r4 where sk3: "skip_ws r3 = q # r4"
      by (auto split: sum.splits list.splits if_splits)
    from skip_ws_Cons_length [OF sk3] have l4: "length r4 < length r3" .
    from run a sk b sk2 sk3 False obtain kvs' where "parse_object_items n r4 = Inr (kvs', r)"
      by (auto split: sum.splits if_splits)
    from IHo [OF this] l0 l1 l2 l3 l4 show ?thesis by simp
  qed
qed

lemma decoder_consumes:
  "(\<forall>s v r. scan_once n s = Inr (v, r) \<longrightarrow> length r < length s)
   \<and> (\<forall>s vs r. parse_array_items n s = Inr (vs, r) \<longrightarrow> length r < length s)
   \<and> (\<forall>s kvs r. parse_object_items n s = Inr (kvs, r) \<longrightarrow> length r < length s)"
proof (induction n)
  case 0
  show ?case by simp
next
  case (Suc n)
  show ?case
  proof (intro conjI allI impI)
    fix s v r
    assume "scan_once (Suc n) s = Inr (v, r)"
    with Suc show "length r < length s"
      by (intro scan_once_consumes_step [of n s v r]) blast+
  next
    fix s vs r
    assume "parse_array_items (Suc n) s = Inr (vs, r)"
    with Suc show "length r < length s"
      by (intro parse_array_items_consumes_step [of n s vs r]) blast+
  next
    fix s kvs r
    assume "parse_object_items (Suc n) s = Inr (kvs, r)"
    with Suc show "length r < length s"
      by (intro parse_object_items_consumes_step [of n s kvs r]) blast+
  qed
qed


lemma scan_once_fuel_step:
  assumes IHa: "\<And>t. 2 * length t + 2 \<le> n \<Longrightarrow> parse_array_items n t \<noteq> Inl RecursionError"
    and IHo: "\<And>t. 2 * length t + 2 \<le> n \<Longrightarrow> parse_object_items n t \<noteq> Inl RecursionError"
    and fuel: "2 * length s + 1 \<le> Suc n"
  shows "scan_once (Suc n) s \<noteq> Inl RecursionError"
proof (cases s)
  case Nil
  then show ?thesis by simp
next
  case (Cons c cs)
  consider (str) "c = DQ" | (obj) "c \<noteq> DQ" "c = CHR ''{''"
    | (arr) "c \<noteq> DQ" "c \<noteq> CHR ''{''" "c = CHR ''[''"
    | (other) "c \<noteq> DQ" "c \<noteq> CHR ''{''" "c \<noteq> CHR ''[''"
    by blast
  then show ?thesis
  proof cases
    case str
    with Cons scanstring_no_recursion_error [of cs] show ?thesis
      by (auto split: sum.splits)
  next
    case obj
    show ?thesis
    proof (cases "skip_ws cs")
      case Nil
      with Cons obj show ?thesis by simp
    next
      case sk: (Cons d r0)
      from skip_ws_Cons_length [OF sk] fuel Cons have "2 * length r0 + 2 \<le> n" by simp
      from IHo [OF this] Cons obj sk show ?thesis
        by (auto split: sum.splits)
    qed
  next
    case arr
    show ?thesis
    proof (cases "skip_ws cs")
      case Nil
      with Cons arr show ?thesis by simp
    next
      case sk: (Cons d r0)
      from skip_ws_Cons_length [OF sk] fuel Cons have "2 * length (d # r0) + 2 \<le> n" by simp
      from IHa [OF this] Cons arr sk show ?thesis
        by (auto split: sum.splits)
    qed
  next
    case other
    with Cons scan_number_no_recursion_error [of s] show ?thesis
      by auto
  qed
qed

lemma parse_array_items_fuel_step:
  assumes IHs: "\<And>t. 2 * length t + 1 \<le> n \<Longrightarrow> scan_once n t \<noteq> Inl RecursionError"
    and IHa: "\<And>t. 2 * length t + 2 \<le> n \<Longrightarrow> parse_array_items n t \<noteq> Inl RecursionError"
    and fuel: "2 * length s + 2 \<le> Suc n"
  shows "parse_array_items (Suc n) s \<noteq> Inl RecursionError"
proof
  assume run: "parse_array_items (Suc n) s = Inl RecursionError"
  from fuel have "2 * length s + 1 \<le> n" by simp
  from IHs [OF this] run obtain v r1 where a: "scan_once n s = Inr (v, r1)"
    by (cases "scan_once n s") auto
  from decoder_consumes [of n] a have l1: "length r1 < length s" by blast
  from run a obtain c r2 where sk: "skip_ws r1 = c # r2"
    by (auto split: list.splits)
  from skip_ws_Cons_length [OF sk] have l2: "length r2 < length r1" .
  from run a sk have b: "parse_array_items n (skip_ws r2) = Inl RecursionError"
    by (auto split: sum.splits if_splits)
  from l1 l2 skip_ws_length [of r2] fuel have "2 * length (skip_ws r2) + 2 \<le> n" by simp
  from IHa [OF this] b show False by simp
qed

lemma parse_object_items_fuel_step:
  assumes IHs: "\<And>t. 2 * length t + 1 \<le> n \<Longrightarrow> scan_once n t \<noteq> Inl RecursionError"
    and IHo: "\<And>t. 2 * length t + 2 \<le> n \<Longrightarrow> parse_object_items n t \<noteq> Inl RecursionError"
    and fuel: "2 * length s + 2 \<le> Suc n"
  shows "parse_object_items (Suc n) s \<noteq> Inl RecursionError"
proof
  assume run: "parse_object_items (Suc n) s = Inl RecursionError"
  from run scanstring_no_recursion_error [of s] obtain key r0 where a: "scanstring s = Inr (key, r0)"
    by (cases "scanstring s") auto
  from scanstring_consumes [OF a] have l0: "length r0 < length s" .
  from run a obtain c r1 where sk: "skip_ws r0 = c # r1"
    by (auto split: list.splits)
  from skip_ws_Cons_length [OF sk] have l1: "length r1 < length r0" .
  from l0 l1 skip_ws_length [of r1] fuel have "2 * length (skip_ws r1) + 1 \<le> n" by simp
  from IHs [OF this] run a sk obtain v r2 where b: "scan_once n (skip_ws r1) = Inr (v, r2)"
    by (cases "scan_once n (skip_ws r1)") (auto split: if_splits)
  from decoder_consumes [of n] b skip_ws_length [of r1] have l2: "length r2 < length r1"
    by (metis le_trans not_le)
  from run a sk b obtain d r3 where sk2: "skip_ws r2 = d # r3"
    by (auto split: list.splits if_splits)
  from skip_ws_Cons_length [OF sk2] have l3: "length r3 < length r2" .
  from run a sk b sk2 obtain q r4 where sk3: "skip_ws r3 = q # r4"
    by (auto split: list.splits if_splits)
  from skip_ws_Cons_length [OF sk3] have l4: "length r4 < length r3" .
  from run a sk b sk2 sk3 have e: "parse_object_items n r4 = Inl RecursionError"
    by (auto split: sum.splits if_splits)
  from l0 l1 l2 l3 l4 fuel have "2 * length r4 + 2 \<le> n" by simp
  from IHo [OF this] e show False by simp
qed

lemma decoder_fuel:
  "(\<forall>s. 2 * length s + 1 \<le> n \<longrightarrow> scan_once n s \<noteq> Inl RecursionError)
   \<and> (\<forall>s. 2 * length s + 2 \<le> n \<longrightarrow> parse_array_items n s \<noteq> Inl RecursionError)
   \<and> (\<forall>s. 2 * length s + 2 \<le> n \<longrightarrow> parse_object_items n s \<noteq> Inl RecursionError)"
proof (induction n)
  case 0
  show ?case by simp
next
  case (Suc n)
  show ?case
  proof (intro conjI allI impI)
    fix s :: string
    assume "2 * length s + 1 \<le> Suc n"
    with Suc show "scan_once (Suc n) s \<noteq> Inl RecursionError"
      by (intro scan_once_fuel_step) blast+
  next
    fix s :: string
    assume "2 * length s + 2 \<le> Suc n"
    with Suc show "parse_array_items (Suc n) s \<noteq> Inl RecursionError"
      by (intro parse_array_items_fuel_step) blast+
  next
    fix s :: string
    assume "2 * length s + 2 \<le> Suc n"
    with Suc show "parse_object_items (Suc n) s \<noteq> Inl RecursionError"
      by (intro parse_object_items_fuel_step) blast+
  qed
qed

lemma json_loads_fuel: "json_loads s \<noteq> Inl RecursionError"
proof -
  have "2 * length (skip_ws s) + 1 \<le> 2 * length s + 2"
    using skip_ws_length [of s] by simp
  with decoder_fuel [of "2 * length s + 2"]
  have h: "scan_once (2 * length s + 2) (skip_ws s) \<noteq> Inl RecursionError" by blast
  show ?thesis
  proof (cases "scan_once (2 * length s + 2) (skip_ws s)")
    case (Inl e)
    with h have "e \<noteq> RecursionError" by auto
    then show ?thesis unfolding json_loads_def Inl by simp
  next
    case (Inr p)
    show ?thesis unfolding json_loads_def Inr by (cases p) simp
  qed
qed

section \<open>Effects of a call\<close>

lemma producer_calls_simps [simp]:
  "producer_calls [] = 0"
  "producer_calls (CacheGet k # evs) = producer_calls evs"
  "producer_calls (CacheSet k p t # evs) = producer_calls evs"
  "producer_calls (ProducerCall a kw # evs) = Suc (producer_calls evs)"
  by (simp_all add: producer_calls_def)

lemma cache_writes_simps [simp]:
  "cache_writes [] = 0"
  "cache_writes (CacheGet k # evs) = cache_writes evs"
  "cache_writes (CacheSet k p t # evs) = Suc (cache_writes evs)"
  "cache_writes (ProducerCall a kw # evs) = cache_writes evs"
  by (simp_all add: cache_writes_def)

lemma wrapper_no_identifier:
  "get_user_id args kwargs = Inl e \<Longrightarrow>
   wrapper cache ttl namespace func args kwargs s = \<lparr>result = Inl e, store = s, events = []\<rparr>"
  by (simp add: wrapper_def)

lemma wrapper_miss:
  assumes "get_user_id args kwargs = Inr uid"
    and "cache_get cache s (key_for namespace uid) = Inr c"
    and "c = None \<or> c = Some []"
  shows "wrapper cache ttl namespace func args kwargs s =
         fetch_and_store cache ttl func args kwargs (key_for namespace uid) s"
  using assms by (auto simp: wrapper_def)

lemma fetch_and_store_events:
  "\<exists>rest. events (fetch_and_store cache ttl func args kwargs k s) =
           CacheGet k # ProducerCall args kwargs # rest
         \<and> (rest = [] \<or> (\<exists>p. rest = [CacheSet k p ttl]))"
  by (simp add: fetch_and_store_def split: sum.splits)

lemma wrapper_events:
  assumes "get_user_id args kwargs = Inr uid"
  shows "\<exists>rest. events (wrapper cache ttl namespace func args kwargs s) =
           CacheGet (key_for namespace uid) # rest
         \<and> (rest = [] \<or> rest = [ProducerCall args kwargs]
             \<or> (\<exists>p. rest = [ProducerCall args kwargs, CacheSet (key_for namespace uid) p ttl]))"
  using assms fetch_and_store_events [of cache ttl func args kwargs "key_for namespace uid" s]
  by (auto simp: wrapper_def Let_def split: sum.splits option.splits)

lemma get_user_id_cases:
  "get_user_id args kwargs = Inr uid \<Longrightarrow>
   map_of kwargs ''user_id'' = Some uid \<or> (\<exists>rest. args = uid # rest)"
  by (auto simp: get_user_id_def first_positional_def split: option.splits if_splits list.splits)

lemma key_for_inject: "key_for ns1 uid = key_for ns2 uid \<Longrightarrow> ns1 = ns2"
  by (simp add: key_for_def)

text \<open>
  Claim C2. On a cache hit, that is when \<^verbatim>\<open>cache.get\<close> returns a non-empty value for the
  derived key, the call returns \<^verbatim>\<open>json.loads\<close> of that value at once (the decoded value, or
  the decoder's exception), leaves the store as it was, and does not call the wrapped
  function: the read is its only effect.
\<close>

theorem cache_hit_skips_producer:
  assumes "get_user_id args kwargs = Inr uid"
    and "cache_get cache s (key_for namespace uid) = Inr (Some text)"
    and "text \<noteq> []"
  shows "wrapper cache ttl namespace func args kwargs s =
           \<lparr>result = json_loads text, store = s, events = [CacheGet (key_for namespace uid)]\<rparr>
         \<and> producer_calls (events (wrapper cache ttl namespace func args kwargs s)) = 0"
  using assms by (simp add: wrapper_def)

theorem cache_hit_skips_producer_witness:
  "get_user_id [IInt 7] [] = Inr (IInt 7)
   \<and> cache_get mem_cache [(''users:user:7'', ''[1, 2]'')] (key_for ''users'' (IInt 7)) = Inr (Some ''[1, 2]'')
   \<and> ''[1, 2]'' \<noteq> []
   \<and> wrapper mem_cache 120 ''users'' get_user_details [IInt 7] [] [(''users:user:7'', ''[1, 2]'')] =
       \<lparr>result = Inr (PList [PInt 1, PInt 2]), store = [(''users:user:7'', ''[1, 2]'')],
        events = [CacheGet ''users:user:7'']\<rparr>
   \<and> producer_calls (events (wrapper mem_cache 120 ''users'' get_user_details [IInt 7] []
        [(''users:user:7'', ''[1, 2]'')])) = 0"
proof -
  have h1: "get_user_id [IInt 7] [] = Inr (IInt 7)" by code_simp
  have h2: "cache_get mem_cache [(''users:user:7'', ''[1, 2]'')] (key_for ''users'' (IInt 7)) = Inr (Some ''[1, 2]'')"
    by code_simp
  have h3: "''[1, 2]'' \<noteq> []" by simp
  have e1: "json_loads ''[1, 2]'' = Inr (PList [PInt 1, PInt 2])" by code_simp
  have e2: "key_for ''users'' (IInt 7) = ''users:user:7''" by code_simp
  show ?thesis
    using cache_hit_skips_producer [OF h1 h2 h3, of 120 get_user_details] h1 h2 e1 e2 by simp
qed

text \<open>
  Claim C3. When the wrapped function has returned a result and the write then fails, either
  because \<^verbatim>\<open>json.dumps\<close> raises or because \<^verbatim>\<open>cache.set\<close> raises, the call raises
  \<^verbatim>\<open>HTTPException\<close> with status 500 and a detail starting with \<^verbatim>\<open>Error caching data: \<close>,
  and does not return the computed result.
\<close>

theorem cache_write_failure_is_http_500:
  assumes "get_user_id args kwargs = Inr uid"
    and "cache_get cache s (key_for namespace uid) = Inr c"
    and "c = None \<or> c = Some []"
    and "func args kwargs = Inr response"
    and "(\<exists>e. json_dumps response = Inl e)
         \<or> (\<exists>payload msg. json_dumps response = Inr payload
              \<and> cache_set cache s (key_for namespace uid) payload ttl = Inl msg)"
  shows "(\<exists>m. result (wrapper cache ttl namespace func args kwargs s) =
              Inl (HTTPException 500 (''Error caching data: '' @ m)))
         \<and> result (wrapper cache ttl namespace func args kwargs s) \<noteq> Inr response
         \<and> producer_calls (events (wrapper cache ttl namespace func args kwargs s)) = 1"
  using assms(4,5) unfolding wrapper_miss [OF assms(1,2,3)]
  by (auto simp: fetch_and_store_def)

theorem cache_write_failure_is_http_500_witness:
  "get_user_id [IInt 2] [] = Inr (IInt 2)
   \<and> cache_get write_down_cache [] (key_for ''users'' (IInt 2)) = Inr None
   \<and> (\<exists>response payload msg. get_user_details [IInt 2] [] = Inr response
        \<and> json_dumps response = Inr payload
        \<and> cache_set write_down_cache [] (key_for ''users'' (IInt 2)) payload 120 = Inl msg)
   \<and> result (wrapper write_down_cache 120 ''users'' get_user_details [IInt 2] [] []) =
       Inl (HTTPException 500 ''Error caching data: Connection refused'')
   \<and> json_dumps (PObject ''User'') = Inl (NotSerializable ''User'')
   \<and> (\<exists>m. result (wrapper mem_cache 120 ''users'' (\<lambda>a k. Inr (PObject ''User'')) [IInt 2] [] []) =
       Inl (HTTPException 500 (''Error caching data: '' @ m)))"
proof -
  have h1: "get_user_id [IInt 2] [] = Inr (IInt 2)" by code_simp
  have h2: "cache_get write_down_cache [] (key_for ''users'' (IInt 2)) = Inr None" by code_simp
  have h2': "cache_get mem_cache [] (key_for ''users'' (IInt 2)) = Inr None" by code_simp
  have h3: "(None :: string option) = None \<or> None = Some []" by simp
  have h4: "get_user_details [IInt 2] [] = Inr (the (map_of users_db 2))" by code_simp
  obtain payload where p: "json_dumps (the (map_of users_db 2)) = Inr payload"
    by (cases "json_dumps (the (map_of users_db 2))") (code_simp, blast)
  have h5: "cache_set write_down_cache [] (key_for ''users'' (IInt 2)) payload 120 = Inl ''Connection refused''"
    by (simp add: write_down_cache_def)
  have h6: "json_dumps (PObject ''User'') = Inl (NotSerializable ''User'')" by code_simp
  have a: "(\<exists>e. json_dumps (the (map_of users_db 2)) = Inl e)
         \<or> (\<exists>payload msg. json_dumps (the (map_of users_db 2)) = Inr payload
              \<and> cache_set write_down_cache [] (key_for ''users'' (IInt 2)) payload 120 = Inl msg)"
    using p h5 by blast
  have b: "(\<exists>e. json_dumps (PObject ''User'') = Inl e)
         \<or> (\<exists>payload msg. json_dumps (PObject ''User'') = Inr payload
              \<and> cache_set mem_cache [] (key_for ''users'' (IInt 2)) payload 120 = Inl msg)"
    using h6 by blast
  have r: "result (wrapper write_down_cache 120 ''users'' get_user_details [IInt 2] [] []) =
       Inl (HTTPException 500 ''Error caching data: Connection refused'')" by code_simp
  show ?thesis
    using cache_write_failure_is_http_500 [where func = get_user_details, OF h1 h2 h3 h4 a]
      cache_write_failure_is_http_500 [where func = "\<lambda>a k. Inr (PObject ''User'')",
        OF h1 h2' h3 refl b] h1 h2 h4 p h5 h6 r
    by blast
qed

text \<open>
  Claim C4. When the wrapped function raises, the call raises the same exception, makes no
  cache write and leaves the store as it was; a repeated call on that store calls the wrapped
  function again.
\<close>

theorem producer_failure_propagates:
  assumes "get_user_id args kwargs = Inr uid"
    and "cache_get cache s (key_for namespace uid) = Inr c"
    and "c = None \<or> c = Some []"
    and "func args kwargs = Inl e"
  shows "wrapper cache ttl namespace func args kwargs s =
           \<lparr>result = Inl e, store = s,
            events = [CacheGet (key_for namespace uid), ProducerCall args kwargs]\<rparr>
         \<and> cache_writes (events (wrapper cache ttl namespace func args kwargs s)) = 0
         \<and> producer_calls (events (wrapper cache ttl namespace func args kwargs
              (store (wrapper cache ttl namespace func args kwargs s)))) = 1"
proof -
  have w: "wrapper cache ttl namespace func args kwargs s =
           \<lparr>result = Inl e, store = s,
            events = [CacheGet (key_for namespace uid), ProducerCall args kwargs]\<rparr>"
    using assms(4) unfolding wrapper_miss [OF assms(1,2,3)]
    by (simp add: fetch_and_store_def)
  show ?thesis
    by (simp add: w)
qed

theorem producer_failure_propagates_witness:
  "get_user_id [IInt 99] [] = Inr (IInt 99)
   \<and> cache_get mem_cache [] (key_for ''users'' (IInt 99)) = Inr None
   \<and> get_user_details [IInt 99] [] = Inl (HTTPException 404 ''User not found'')
   \<and> wrapper mem_cache 120 ''users'' get_user_details [IInt 99] [] [] =
       \<lparr>result = Inl (HTTPException 404 ''User not found''), store = [],
        events = [CacheGet ''users:user:99'', ProducerCall [IInt 99] []]\<rparr>
   \<and> producer_calls (events (wrapper mem_cache 120 ''users'' get_user_details [IInt 99] []
        (store (wrapper mem_cache 120 ''users'' get_user_details [IInt 99] [] [])))) = 1"
proof -
  have h1: "get_user_id [IInt 99] [] = Inr (IInt 99)" by code_simp
  have h2: "cache_get mem_cache [] (key_for ''users'' (IInt 99)) = Inr None" by code_simp
  have h3: "(None :: string option) = None \<or> None = Some []" by simp
  have h4: "get_user_details [IInt 99] [] = Inl (HTTPException 404 ''User not found'')" by code_simp
  have e: "key_for ''users'' (IInt 99) = ''users:user:99''" by code_simp
  show ?thesis
    using producer_failure_propagates [where func = get_user_details and ttl = 120, OF h1 h2 h3 h4]
      h1 h2 h4 e by simp
qed

text \<open>
  Claim C5. The key is \<^verbatim>\<open>namespace + ":user:" + str(identifier)\<close>, where the identifier is
  the \<^verbatim>\<open>user_id\<close> keyword argument or the first positional argument; it is the key the call
  reads the cache with, and it is the same whatever the client, the store state, the TTL and
  the wrapped function are. A truthy identifier is found whether it is passed by position or
  by keyword.
\<close>

theorem cache_key_composition:
  assumes "get_user_id args kwargs = Inr uid"
  shows "(map_of kwargs ''user_id'' = Some uid \<or> (\<exists>rest. args = uid # rest))
         \<and> key_for namespace uid = namespace @ '':user:'' @ py_str uid
         \<and> events (wrapper cache ttl namespace func args kwargs s) \<noteq> []
         \<and> hd (events (wrapper cache ttl namespace func args kwargs s)) =
             CacheGet (namespace @ '':user:'' @ py_str uid)
         \<and> hd (events (wrapper cache' ttl' namespace func' args kwargs s')) =
             hd (events (wrapper cache ttl namespace func args kwargs s))
         \<and> (truthy uid \<longrightarrow>
              get_user_id [uid] [] = Inr uid \<and> get_user_id [] [(''user_id'', uid)] = Inr uid)"
  using get_user_id_cases [OF assms]
    wrapper_events [OF assms, of cache ttl namespace func s]
    wrapper_events [OF assms, of cache' ttl' namespace func' s']
  by (auto simp: key_for_def get_user_id_def first_positional_def)

theorem cache_key_composition_witness:
  "get_user_id [] [(''user_id'', IInt 1)] = Inr (IInt 1)
   \<and> map_of [(''user_id'', IInt 1)] ''user_id'' = Some (IInt 1)
   \<and> key_for ''users'' (IInt 1) = ''users:user:1''
   \<and> hd (events (wrapper mem_cache 120 ''users'' get_user_details [] [(''user_id'', IInt 1)] [])) =
       CacheGet ''users:user:1''"
proof -
  have h1: "get_user_id [] [(''user_id'', IInt 1)] = Inr (IInt 1)" by code_simp
  have e: "''users'' @ '':user:'' @ py_str (IInt 1) = ''users:user:1''" by code_simp
  show ?thesis
    using cache_key_composition [OF h1, where namespace = "''users''" and cache = mem_cache
        and ttl = 120 and func = get_user_details and s = "[]" and cache' = mem_cache
        and ttl' = 120 and func' = get_user_details and s' = "[]"] h1 e
    by simp
qed

text \<open>
  Claim C7. Two different namespaces give different keys for the same identifier, so a key
  written by a call under one namespace is never a key read by a call with the same
  arguments under the other.
\<close>

theorem namespaces_do_not_collide:
  assumes "ns1 \<noteq> ns2"
  shows "key_for ns1 uid \<noteq> key_for ns2 uid
         \<and> (\<forall>k p t. CacheSet k p t \<in> set (events (wrapper cache1 ttl1 ns1 func1 args kwargs s1))
              \<longrightarrow> CacheGet k \<notin> set (events (wrapper cache2 ttl2 ns2 func2 args kwargs s2)))"
proof (intro conjI allI impI)
  show "key_for ns1 uid \<noteq> key_for ns2 uid"
    using assms key_for_inject by blast
next
  fix k p t
  assume w: "CacheSet k p t \<in> set (events (wrapper cache1 ttl1 ns1 func1 args kwargs s1))"
  show "CacheGet k \<notin> set (events (wrapper cache2 ttl2 ns2 func2 args kwargs s2))"
  proof (cases "get_user_id args kwargs")
    case (Inl e)
    then show ?thesis by (simp add: wrapper_no_identifier)
  next
    case (Inr u)
    from wrapper_events [OF Inr, of cache1 ttl1 ns1 func1 s1] w
    have k: "k = key_for ns1 u" by auto
    from wrapper_events [OF Inr, of cache2 ttl2 ns2 func2 s2]
    have "CacheGet k' \<in> set (events (wrapper cache2 ttl2 ns2 func2 args kwargs s2))
          \<Longrightarrow> k' = key_for ns2 u" for k'
      by auto
    with k assms key_for_inject show ?thesis by blast
  qed
qed

theorem namespaces_do_not_collide_witness:
  "''users'' \<noteq> ''orders''
   \<and> key_for ''users'' (IInt 1) \<noteq> key_for ''orders'' (IInt 1)
   \<and> CacheSet ''users:user:1'' ''{}'' 120 \<in>
       set (events (wrapper mem_cache 120 ''users'' (\<lambda>a k. Inr (PDict [])) [IInt 1] [] []))
   \<and> CacheGet ''users:user:1'' \<notin>
       set (events (wrapper mem_cache 60 ''orders'' (\<lambda>a k. Inr (PDict [])) [IInt 1] []
              [(''users:user:1'', ''{}'')]))"
proof -
  have h: "''users'' \<noteq> ''orders''" by simp
  have w: "CacheSet ''users:user:1'' ''{}'' 120 \<in>
       set (events (wrapper mem_cache 120 ''users'' (\<lambda>a k. Inr (PDict [])) [IInt 1] [] []))"
    by code_simp
  show ?thesis
    using namespaces_do_not_collide [OF h, of "IInt 1" mem_cache 120 "\<lambda>a k. Inr (PDict [])"
        "[IInt 1]" "[]" "[]" mem_cache 60 "\<lambda>a k. Inr (PDict [])" "[(''users:user:1'', ''{}'')]"] w
    by blast
qed

text \<open>
  Claim C8, as stated, fails. A call of the endpoint with neither a \<^verbatim>\<open>user_id\<close> keyword
  argument nor a positional argument does not fail with an error of the decorator's own:
  \<^verbatim>\<open>args[0]\<close> raises Python's built-in \<^verbatim>\<open>IndexError\<close>. The decorator defines no error for
  an identifier it cannot find.
\<close>

theorem missing_identifier_counterexample:
  "wrapper mem_cache 120 ''users'' get_user_details [] [] [] =
     \<lparr>result = Inl IndexError, store = [], events = []\<rparr>"
  by code_simp

text \<open>
  Claim C8, amended. A call with neither a \<^verbatim>\<open>user_id\<close> keyword argument nor a positional
  argument raises \<^verbatim>\<open>IndexError\<close> before any cache read, call of the wrapped function or
  cache write, and leaves the store as it was.
\<close>

theorem missing_identifier_raises_IndexError:
  assumes "map_of kwargs ''user_id'' = None" and "args = []"
  shows "wrapper cache ttl namespace func args kwargs s =
           \<lparr>result = Inl IndexError, store = s, events = []\<rparr>"
  using assms by (simp add: wrapper_def get_user_id_def first_positional_def)

theorem missing_identifier_raises_IndexError_witness:
  "map_of [(''verbose'', IBool True)] ''user_id'' = None
   \<and> wrapper mem_cache 120 ''users'' get_user_details [] [(''verbose'', IBool True)]
        [(''users:user:1'', ''{}'')] =
       \<lparr>result = Inl IndexError, store = [(''users:user:1'', ''{}'')], events = []\<rparr>"
proof -
  have h: "map_of [(''verbose'', IBool True)] ''user_id'' = None" by simp
  show ?thesis
    using missing_identifier_raises_IndexError [OF h refl, of mem_cache 120 "''users''"
        get_user_details "[(''users:user:1'', ''{}'')]"] h
    by simp
qed

text \<open>
  Claim C9. A falsy \<^verbatim>\<open>user_id\<close> keyword argument (such as \<^verbatim>\<open>0\<close>) is ignored: the identifier
  is the first positional argument, and the cache is read under its key; without a
  positional argument the call raises \<^verbatim>\<open>IndexError\<close> before any cache read or call of the
  wrapped function.
\<close>

theorem falsy_keyword_falls_back_to_positional:
  assumes "map_of kwargs ''user_id'' = Some v" and "\<not> truthy v"
  shows "(\<forall>a rest. args = a # rest \<longrightarrow>
            get_user_id args kwargs = Inr a
            \<and> hd (events (wrapper cache ttl namespace func args kwargs s)) =
                CacheGet (key_for namespace a))
         \<and> (args = [] \<longrightarrow>
              wrapper cache ttl namespace func args kwargs s =
                \<lparr>result = Inl IndexError, store = s, events = []\<rparr>)"
proof (intro conjI allI impI)
  fix a rest
  assume a: "args = a # rest"
  with assms show g: "get_user_id args kwargs = Inr a"
    by (simp add: get_user_id_def first_positional_def)
  from wrapper_events [OF g, of cache ttl namespace func s]
  show "hd (events (wrapper cache ttl namespace func args kwargs s)) =
          CacheGet (key_for namespace a)"
    by auto
next
  assume "args = []"
  with assms show "wrapper cache ttl namespace func args kwargs s =
                \<lparr>result = Inl IndexError, store = s, events = []\<rparr>"
    by (simp add: wrapper_def get_user_id_def first_positional_def)
qed

theorem falsy_keyword_falls_back_to_positional_witness:
  "map_of [(''user_id'', IInt 0)] ''user_id'' = Some (IInt 0)
   \<and> \<not> truthy (IInt 0)
   \<and> get_user_id [IInt 3] [(''user_id'', IInt 0)] = Inr (IInt 3)
   \<and> hd (events (wrapper mem_cache 120 ''users'' get_user_details [IInt 3] [(''user_id'', IInt 0)] []))
       = CacheGet ''users:user:3''
   \<and> wrapper mem_cache 120 ''users'' get_user_details [] [(''user_id'', IInt 0)] [] =
       \<lparr>result = Inl IndexError, store = [], events = []\<rparr>"
proof -
  have h1: "map_of [(''user_id'', IInt 0)] ''user_id'' = Some (IInt 0)" by simp
  have h2: "\<not> truthy (IInt 0)" by simp
  have e: "key_for ''users'' (IInt 3) = ''users:user:3''" by code_simp
  show ?thesis
    using falsy_keyword_falls_back_to_positional [OF h1 h2, of "[IInt 3]" mem_cache 120 "''users''"
        get_user_details "[]"]
      falsy_keyword_falls_back_to_positional [OF h1 h2, of "[]" mem_cache 120 "''users''"
        get_user_details "[]"] h1 h2 e
    by simp
qed

text \<open>
  Claim C10. When the store holds the empty string under the derived key, the call takes the
  path of a miss, never that of a hit: it calls the wrapped function once. When that returns
  a result that \<^verbatim>\<open>json.dumps\<close> can encode, the call writes the encoding under the key with
  the TTL; when the write succeeds, the store after the call is the store that
  \<^verbatim>\<open>cache.set\<close> has produced and the call returns the fresh result, not the cached value.
  In every other case the store is left as it was: the exception of the wrapped function
  passes through, and a failure of \<^verbatim>\<open>json.dumps\<close> or of \<^verbatim>\<open>cache.set\<close> is an HTTP 500.
\<close>

theorem falsy_cached_value_is_a_miss:
  assumes "get_user_id args kwargs = Inr uid"
    and "cache_get cache s (key_for namespace uid) = Inr (Some [])"
  shows "wrapper cache ttl namespace func args kwargs s =
           fetch_and_store cache ttl func args kwargs (key_for namespace uid) s
         \<and> producer_calls (events (wrapper cache ttl namespace func args kwargs s)) = 1
         \<and> events (wrapper cache ttl namespace func args kwargs s) \<noteq>
             [CacheGet (key_for namespace uid)]
         \<and> (\<forall>response payload.
              func args kwargs = Inr response \<and> json_dumps response = Inr payload \<longrightarrow>
              CacheSet (key_for namespace uid) payload ttl
                \<in> set (events (wrapper cache ttl namespace func args kwargs s)))
         \<and> (\<forall>response payload s'.
              func args kwargs = Inr response \<and> json_dumps response = Inr payload
              \<and> cache_set cache s (key_for namespace uid) payload ttl = Inr s' \<longrightarrow>
              wrapper cache ttl namespace func args kwargs s =
                \<lparr>result = Inr response, store = s',
                 events = [CacheGet (key_for namespace uid), ProducerCall args kwargs,
                           CacheSet (key_for namespace uid) payload ttl]\<rparr>)
         \<and> (\<forall>response payload msg.
              func args kwargs = Inr response \<and> json_dumps response = Inr payload
              \<and> cache_set cache s (key_for namespace uid) payload ttl = Inl msg \<longrightarrow>
              wrapper cache ttl namespace func args kwargs s =
                \<lparr>result = Inl (HTTPException 500 (''Error caching data: '' @ msg)), store = s,
                 events = [CacheGet (key_for namespace uid), ProducerCall args kwargs,
                           CacheSet (key_for namespace uid) payload ttl]\<rparr>)
         \<and> (\<forall>response e.
              func args kwargs = Inr response \<and> json_dumps response = Inl e \<longrightarrow>
              wrapper cache ttl namespace func args kwargs s =
                \<lparr>result = Inl (HTTPException 500 (''Error caching data: '' @ enc_error_str e)),
                 store = s,
                 events = [CacheGet (key_for namespace uid), ProducerCall args kwargs]\<rparr>)
         \<and> (\<forall>e. func args kwargs = Inl e \<longrightarrow>
              wrapper cache ttl namespace func args kwargs s =
                \<lparr>result = Inl e, store = s,
                 events = [CacheGet (key_for namespace uid), ProducerCall args kwargs]\<rparr>)"
  unfolding wrapper_miss [OF assms(1,2) disjI2 [OF refl]]
  by (auto simp: fetch_and_store_def split: sum.splits)

theorem falsy_cached_value_is_a_miss_witness:
  "get_user_id [] [(''user_id'', IInt 1)] = Inr (IInt 1)
   \<and> cache_get mem_cache [(''users:user:1'', [])] (key_for ''users'' (IInt 1)) = Inr (Some [])
   \<and> get_user_details [] [(''user_id'', IInt 1)] =
       Inr (PDict [(''id'', PInt 1), (''name'', PStr ''Alice''),
        (''email'', PStr ''alice@example.com''), (''age'', PInt 25)])
   \<and> json_dumps (PDict [(''id'', PInt 1), (''name'', PStr ''Alice''),
        (''email'', PStr ''alice@example.com''), (''age'', PInt 25)]) =
       Inr (''{'' @ [DQ] @ ''id'' @ [DQ] @ '': 1, '' @ [DQ] @ ''name'' @ [DQ] @ '': '' @ [DQ] @ ''Alice'' @ [DQ]
          @ '', '' @ [DQ] @ ''email'' @ [DQ] @ '': '' @ [DQ] @ ''alice@example.com'' @ [DQ]
          @ '', '' @ [DQ] @ ''age'' @ [DQ] @ '': 25}'')
   \<and> cache_set mem_cache [(''users:user:1'', [])] (key_for ''users'' (IInt 1))
         (''{'' @ [DQ] @ ''id'' @ [DQ] @ '': 1, '' @ [DQ] @ ''name'' @ [DQ] @ '': '' @ [DQ] @ ''Alice'' @ [DQ]
          @ '', '' @ [DQ] @ ''email'' @ [DQ] @ '': '' @ [DQ] @ ''alice@example.com'' @ [DQ]
          @ '', '' @ [DQ] @ ''age'' @ [DQ] @ '': 25}'') 120 =
       Inr [(''users:user:1'', ''{'' @ [DQ] @ ''id'' @ [DQ] @ '': 1, '' @ [DQ] @ ''name'' @ [DQ] @ '': '' @ [DQ] @ ''Alice'' @ [DQ]
          @ '', '' @ [DQ] @ ''email'' @ [DQ] @ '': '' @ [DQ] @ ''alice@example.com'' @ [DQ]
          @ '', '' @ [DQ] @ ''age'' @ [DQ] @ '': 25}'')]
   \<and> wrapper mem_cache 120 ''users'' get_user_details [] [(''user_id'', IInt 1)]
         [(''users:user:1'', [])] =
       \<lparr>result = Inr (PDict [(''id'', PInt 1), (''name'', PStr ''Alice''),
        (''email'', PStr ''alice@example.com''), (''age'', PInt 25)]),
        store = [(''users:user:1'', ''{'' @ [DQ] @ ''id'' @ [DQ] @ '': 1, '' @ [DQ] @ ''name'' @ [DQ] @ '': '' @ [DQ] @ ''Alice'' @ [DQ]
          @ '', '' @ [DQ] @ ''email'' @ [DQ] @ '': '' @ [DQ] @ ''alice@example.com'' @ [DQ]
          @ '', '' @ [DQ] @ ''age'' @ [DQ] @ '': 25}'')],
        events = [CacheGet ''users:user:1'', ProducerCall [] [(''user_id'', IInt 1)],
                  CacheSet ''users:user:1'' (''{'' @ [DQ] @ ''id'' @ [DQ] @ '': 1, '' @ [DQ] @ ''name'' @ [DQ] @ '': '' @ [DQ] @ ''Alice'' @ [DQ]
          @ '', '' @ [DQ] @ ''email'' @ [DQ] @ '': '' @ [DQ] @ ''alice@example.com'' @ [DQ]
          @ '', '' @ [DQ] @ ''age'' @ [DQ] @ '': 25}'') 120]\<rparr>
   \<and> producer_calls (events (wrapper mem_cache 120 ''users'' get_user_details [] [(''user_id'', IInt 1)]
         [(''users:user:1'', [])])) = 1"
proof -
  have h1: "get_user_id [] [(''user_id'', IInt 1)] = Inr (IInt 1)" by code_simp
  have h2: "cache_get mem_cache [(''users:user:1'', [])] (key_for ''users'' (IInt 1)) = Inr (Some [])"
    by code_simp
  have f: "get_user_details [] [(''user_id'', IInt 1)] =
       Inr (PDict [(''id'', PInt 1), (''name'', PStr ''Alice''),
        (''email'', PStr ''alice@example.com''), (''age'', PInt 25)])"
    by code_simp
  have d: "json_dumps (PDict [(''id'', PInt 1), (''name'', PStr ''Alice''),
        (''email'', PStr ''alice@example.com''), (''age'', PInt 25)]) =
       Inr (''{'' @ [DQ] @ ''id'' @ [DQ] @ '': 1, '' @ [DQ] @ ''name'' @ [DQ] @ '': '' @ [DQ] @ ''Alice'' @ [DQ]
          @ '', '' @ [DQ] @ ''email'' @ [DQ] @ '': '' @ [DQ] @ ''alice@example.com'' @ [DQ]
          @ '', '' @ [DQ] @ ''age'' @ [DQ] @ '': 25}'')"
    by code_simp
  have w: "cache_set mem_cache [(''users:user:1'', [])] (key_for ''users'' (IInt 1))
         (''{'' @ [DQ] @ ''id'' @ [DQ] @ '': 1, '' @ [DQ] @ ''name'' @ [DQ] @ '': '' @ [DQ] @ ''Alice'' @ [DQ]
          @ '', '' @ [DQ] @ ''email'' @ [DQ] @ '': '' @ [DQ] @ ''alice@example.com'' @ [DQ]
          @ '', '' @ [DQ] @ ''age'' @ [DQ] @ '': 25}'') 120 =
       Inr [(''users:user:1'', ''{'' @ [DQ] @ ''id'' @ [DQ] @ '': 1, '' @ [DQ] @ ''name'' @ [DQ] @ '': '' @ [DQ] @ ''Alice'' @ [DQ]
          @ '', '' @ [DQ] @ ''email'' @ [DQ] @ '': '' @ [DQ] @ ''alice@example.com'' @ [DQ]
          @ '', '' @ [DQ] @ ''age'' @ [DQ] @ '': 25}'')]"
    by code_simp
  have k: "key_for ''users'' (IInt 1) = ''users:user:1''" by code_simp
  note t = falsy_cached_value_is_a_miss [where func = get_user_details and ttl = 120, OF h1 h2]
  from t have n: "producer_calls (events (wrapper mem_cache 120 ''users'' get_user_details [] [(''user_id'', IInt 1)]
         [(''users:user:1'', [])])) = 1"
    by blast
  from t f d w have "wrapper mem_cache 120 ''users'' get_user_details [] [(''user_id'', IInt 1)]
         [(''users:user:1'', [])] =
       \<lparr>result = Inr (PDict [(''id'', PInt 1), (''name'', PStr ''Alice''),
        (''email'', PStr ''alice@example.com''), (''age'', PInt 25)]),
        store = [(''users:user:1'', ''{'' @ [DQ] @ ''id'' @ [DQ] @ '': 1, '' @ [DQ] @ ''name'' @ [DQ] @ '': '' @ [DQ] @ ''Alice'' @ [DQ]
          @ '', '' @ [DQ] @ ''email'' @ [DQ] @ '': '' @ [DQ] @ ''alice@example.com'' @ [DQ]
          @ '', '' @ [DQ] @ ''age'' @ [DQ] @ '': 25}'')],
        events = [CacheGet (key_for ''users'' (IInt 1)), ProducerCall [] [(''user_id'', IInt 1)],
                  CacheSet (key_for ''users'' (IInt 1)) (''{'' @ [DQ] @ ''id'' @ [DQ] @ '': 1, '' @ [DQ] @ ''name'' @ [DQ] @ '': '' @ [DQ] @ ''Alice'' @ [DQ]
          @ '', '' @ [DQ] @ ''email'' @ [DQ] @ '': '' @ [DQ] @ ''alice@example.com'' @ [DQ]
          @ '', '' @ [DQ] @ ''age'' @ [DQ] @ '': 25}'') 120]\<rparr>"
    by blast
  then have o: "wrapper mem_cache 120 ''users'' get_user_details [] [(''user_id'', IInt 1)]
         [(''users:user:1'', [])] =
       \<lparr>result = Inr (PDict [(''id'', PInt 1), (''name'', PStr ''Alice''),
        (''email'', PStr ''alice@example.com''), (''age'', PInt 25)]),
        store = [(''users:user:1'', ''{'' @ [DQ] @ ''id'' @ [DQ] @ '': 1, '' @ [DQ] @ ''name'' @ [DQ] @ '': '' @ [DQ] @ ''Alice'' @ [DQ]
          @ '', '' @ [DQ] @ ''email'' @ [DQ] @ '': '' @ [DQ] @ ''alice@example.com'' @ [DQ]
          @ '', '' @ [DQ] @ ''age'' @ [DQ] @ '': 25}'')],
        events = [CacheGet ''users:user:1'', ProducerCall [] [(''user_id'', IInt 1)],
                  CacheSet ''users:user:1'' (''{'' @ [DQ] @ ''id'' @ [DQ] @ '': 1, '' @ [DQ] @ ''name'' @ [DQ] @ '': '' @ [DQ] @ ''Alice'' @ [DQ]
          @ '', '' @ [DQ] @ ''email'' @ [DQ] @ '': '' @ [DQ] @ ''alice@example.com'' @ [DQ]
          @ '', '' @ [DQ] @ ''age'' @ [DQ] @ '': 25}'') 120]\<rparr>"
    unfolding k .
  from h1 h2 f d w o n show ?thesis by blast
qed

lemma wrapper_produced:
  assumes "result (wrapper cache ttl namespace func args kwargs s) = Inr r"
    and "producer_calls (events (wrapper cache ttl namespace func args kwargs s)) = 1"
  shows "\<exists>uid payload. get_user_id args kwargs = Inr uid
           \<and> func args kwargs = Inr r
           \<and> json_dumps r = Inr payload
           \<and> cache_set cache s (key_for namespace uid) payload ttl =
                Inr (store (wrapper cache ttl namespace func args kwargs s))
           \<and> events (wrapper cache ttl namespace func args kwargs s) =
                [CacheGet (key_for namespace uid), ProducerCall args kwargs,
                 CacheSet (key_for namespace uid) payload ttl]"
  using assms
  by (auto simp: wrapper_def fetch_and_store_def Let_def split: sum.splits option.splits if_splits)

text \<open>
  Claim C1. Let a first call miss the cache, obtain the result \<open>r\<close> of the wrapped function
  and write it, and let the store then return what was written under the key. A second call
  with the same arguments returns \<open>r\<close> again, leaves the store as it is, and the wrapped
  function is called once over the two calls. (\<open>distinct_keys r\<close> holds of every Python
  value: it is the invariant of the lists standing for dictionaries.)
\<close>

theorem second_call_returns_first_result:
  assumes first: "wrapper cache ttl namespace func args kwargs s0 = out1"
    and produced: "result out1 = Inr r"
    and missed: "producer_calls (events out1) = 1"
    and wf: "distinct_keys r"
    and kept: "\<forall>k p t. CacheSet k p t \<in> set (events out1) \<longrightarrow>
                 cache_get cache (store out1) k = Inr (Some p)"
  shows "result (wrapper cache ttl namespace func args kwargs (store out1)) = Inr r
         \<and> store (wrapper cache ttl namespace func args kwargs (store out1)) = store out1
         \<and> producer_calls
              (events out1 @ events (wrapper cache ttl namespace func args kwargs (store out1))) \<le> 1"
proof -
  from wrapper_produced [of cache ttl namespace func args kwargs s0 r] first produced missed
  obtain uid payload where uid: "get_user_id args kwargs = Inr uid"
    and dumps: "json_dumps r = Inr payload"
    and ev: "events out1 = [CacheGet (key_for namespace uid), ProducerCall args kwargs,
                 CacheSet (key_for namespace uid) payload ttl]"
    by auto
  from kept ev have get: "cache_get cache (store out1) (key_for namespace uid) = Inr (Some payload)"
    by simp
  from dumps have enc: "encode r = Inr payload" by (simp add: json_dumps_def)
  have ne: "payload \<noteq> []" using enc by (rule encode_not_Nil)
  have loads: "json_loads payload = Inr r" using enc wf by (rule encode_roundtrip)
  have second: "wrapper cache ttl namespace func args kwargs (store out1) =
      \<lparr>result = Inr r, store = store out1, events = [CacheGet (key_for namespace uid)]\<rparr>"
    using uid get ne loads by (simp add: wrapper_def)
  show ?thesis by (simp add: second ev)
qed

theorem second_call_returns_first_result_witness:
  "result (wrapper mem_cache 120 ''users'' get_user_details [] [(''user_id'', IInt 1)] []) =
     Inr (PDict [(''id'', PInt 1), (''name'', PStr ''Alice''),
        (''email'', PStr ''alice@example.com''), (''age'', PInt 25)])
   \<and> producer_calls (events (wrapper mem_cache 120 ''users'' get_user_details [] [(''user_id'', IInt 1)] [])) = 1
   \<and> distinct_keys (PDict [(''id'', PInt 1), (''name'', PStr ''Alice''),
        (''email'', PStr ''alice@example.com''), (''age'', PInt 25)])
   \<and> cache_get mem_cache (store (wrapper mem_cache 120 ''users'' get_user_details [] [(''user_id'', IInt 1)] [])) ''users:user:1'' =
       Inr (Some (''{'' @ [DQ] @ ''id'' @ [DQ] @ '': 1, '' @ [DQ] @ ''name'' @ [DQ] @ '': '' @ [DQ] @ ''Alice'' @ [DQ]
          @ '', '' @ [DQ] @ ''email'' @ [DQ] @ '': '' @ [DQ] @ ''alice@example.com'' @ [DQ]
          @ '', '' @ [DQ] @ ''age'' @ [DQ] @ '': 25}''))
   \<and> result (wrapper mem_cache 120 ''users'' get_user_details [] [(''user_id'', IInt 1)]
         (store (wrapper mem_cache 120 ''users'' get_user_details [] [(''user_id'', IInt 1)] []))) =
       Inr (PDict [(''id'', PInt 1), (''name'', PStr ''Alice''),
        (''email'', PStr ''alice@example.com''), (''age'', PInt 25)])
   \<and> producer_calls
        (events (wrapper mem_cache 120 ''users'' get_user_details [] [(''user_id'', IInt 1)] []) @
         events (wrapper mem_cache 120 ''users'' get_user_details [] [(''user_id'', IInt 1)]
           (store (wrapper mem_cache 120 ''users'' get_user_details [] [(''user_id'', IInt 1)] [])))) = 1"
proof -
  have h2: "result (wrapper mem_cache 120 ''users'' get_user_details [] [(''user_id'', IInt 1)] []) =
     Inr (PDict [(''id'', PInt 1), (''name'', PStr ''Alice''),
        (''email'', PStr ''alice@example.com''), (''age'', PInt 25)])"
    by code_simp
  have h3: "producer_calls (events (wrapper mem_cache 120 ''users'' get_user_details [] [(''user_id'', IInt 1)] [])) = 1"
    by code_simp
  have h4: "distinct_keys (PDict [(''id'', PInt 1), (''name'', PStr ''Alice''),
        (''email'', PStr ''alice@example.com''), (''age'', PInt 25)])"
    by simp
  have ev: "events (wrapper mem_cache 120 ''users'' get_user_details [] [(''user_id'', IInt 1)] []) =
     [CacheGet ''users:user:1'', ProducerCall [] [(''user_id'', IInt 1)],
      CacheSet ''users:user:1'' (''{'' @ [DQ] @ ''id'' @ [DQ] @ '': 1, '' @ [DQ] @ ''name'' @ [DQ] @ '': '' @ [DQ] @ ''Alice'' @ [DQ]
          @ '', '' @ [DQ] @ ''email'' @ [DQ] @ '': '' @ [DQ] @ ''alice@example.com'' @ [DQ]
          @ '', '' @ [DQ] @ ''age'' @ [DQ] @ '': 25}'') 120]"
    by code_simp
  have g: "cache_get mem_cache (store (wrapper mem_cache 120 ''users'' get_user_details [] [(''user_id'', IInt 1)] [])) ''users:user:1'' =
       Inr (Some (''{'' @ [DQ] @ ''id'' @ [DQ] @ '': 1, '' @ [DQ] @ ''name'' @ [DQ] @ '': '' @ [DQ] @ ''Alice'' @ [DQ]
          @ '', '' @ [DQ] @ ''email'' @ [DQ] @ '': '' @ [DQ] @ ''alice@example.com'' @ [DQ]
          @ '', '' @ [DQ] @ ''age'' @ [DQ] @ '': 25}''))"
    by code_simp
  have h5: "\<forall>k p t. CacheSet k p t \<in> set (events (wrapper mem_cache 120 ''users'' get_user_details [] [(''user_id'', IInt 1)] [])) \<longrightarrow>
      cache_get mem_cache (store (wrapper mem_cache 120 ''users'' get_user_details [] [(''user_id'', IInt 1)] [])) k = Inr (Some p)"
    unfolding ev using g by simp
  from second_call_returns_first_result [OF refl h2 h3 h4 h5] h3
  have "result (wrapper mem_cache 120 ''users'' get_user_details [] [(''user_id'', IInt 1)]
         (store (wrapper mem_cache 120 ''users'' get_user_details [] [(''user_id'', IInt 1)] []))) =
       Inr (PDict [(''id'', PInt 1), (''name'', PStr ''Alice''),
        (''email'', PStr ''alice@example.com''), (''age'', PInt 25)])"
    and "producer_calls
        (events (wrapper mem_cache 120 ''users'' get_user_details [] [(''user_id'', IInt 1)] []) @
         events (wrapper mem_cache 120 ''users'' get_user_details [] [(''user_id'', IInt 1)]
           (store (wrapper mem_cache 120 ''users'' get_user_details [] [(''user_id'', IInt 1)] [])))) = 1"
    by (simp_all add: producer_calls_def)
  with h2 h3 h4 g show ?thesis by blast
qed

end
